theory Spec2Isabelle
  imports Main "HOL-Library.Word"
begin

section \<open>Data model of kernel\_to\_il.h\<close>

text \<open>
  The header declares the instruction-sequence \<open>Fragment\<close>, the graph builder and the five
  scoped chain records (\<open>SwitchBlock\<close>, \<open>TryCatchBlock\<close>, \<open>TryFinallyBlock\<close>,
  \<open>BreakableBlock\<close>, \<open>CatchBlock\<close>). The records are C++ objects that point at each other
  and at the builder, and two of them are mutated through those pointers, so the model keeps
  an explicit store: one partial map per class from object addresses to field records.

  \<^item> \<open>intptr_t\<close> is a 64-bit machine integer; \<open>+\<close> and \<open>-\<close> wrap and the source's
    relational operators are the signed comparisons \<open>\<le>s\<close> and \<open><s\<close>.
  \<^item> A C++ pointer is an \<open>addr option\<close>, \<open>None\<close> being \<open>NULL\<close>.
  \<^item> Reading through \<open>NULL\<close> or through the address of a destroyed object is a \<open>fault\<close>
    value, as is a failed \<open>ASSERT\<close>.
  \<^item> A trailing underscore is not a legal name here, so the field \<open>outer_\<close> of
    \<open>SwitchBlock\<close> is \<open>sb_outer\<close>, that of \<open>BreakableBlock\<close> is \<open>bb_outer\<close>, and so on;
    the builder's fields drop the underscore.
\<close>

type_synonym intptr_t = "64 word"
type_synonym addr = nat

datatype fault = NullDereference | DanglingDereference | AssertionFailure

record Fragment =
  entry :: "addr option"
  current :: "addr option"

record SwitchBlock =
  sb_outer :: "addr option"
  sb_destinations :: "intptr_t \<rightharpoonup> addr"
  sb_outer_finally :: "addr option"
  sb_case_count :: intptr_t
  sb_depth :: intptr_t
  sb_context_depth :: intptr_t
  sb_try_index :: intptr_t

record TryCatchBlock =
  tc_outer :: "addr option"
  tc_try_index :: intptr_t

record TryFinallyBlock =
  tf_outer :: "addr option"
  tf_finalizer_kernel_offset :: intptr_t
  tf_context_depth :: intptr_t
  tf_try_depth :: intptr_t
  tf_try_index :: intptr_t

record BreakableBlock =
  bb_index :: intptr_t
  bb_outer :: "addr option"
  bb_destination :: "addr option"
  bb_outer_finally :: "addr option"
  bb_context_depth :: intptr_t
  bb_try_index :: intptr_t

record CatchBlock =
  cb_outer :: "addr option"
  cb_exception_var :: "addr option"
  cb_stack_trace_var :: "addr option"
  cb_catch_try_index :: intptr_t

text \<open>
  The state is the one \<open>FlowGraphBuilder\<close> every record's \<open>builder_\<close> field points to
  (its counters and its five chain-top pointers), the five object stores, the join
  nodes allocated so far and the next free object address. A join node's identity is its
  position in \<open>join_entries\<close>; the entry there is the try-index it was tagged with.
\<close>

record state =
  context_depth :: intptr_t
  try_depth :: intptr_t
  next_used_try_index :: intptr_t
  try_catch_block :: "addr option"
  breakable_block :: "addr option"
  switch_block :: "addr option"
  try_finally_block :: "addr option"
  catch_block :: "addr option"
  switch_blocks :: "addr \<rightharpoonup> SwitchBlock"
  try_catch_blocks :: "addr \<rightharpoonup> TryCatchBlock"
  try_finally_blocks :: "addr \<rightharpoonup> TryFinallyBlock"
  breakable_blocks :: "addr \<rightharpoonup> BreakableBlock"
  catch_blocks :: "addr \<rightharpoonup> CatchBlock"
  join_entries :: "intptr_t list"
  next_addr :: addr

text \<open>\<open>p->field\<close>: the object \<open>p\<close> points to, or the fault of reading through it.\<close>

definition deref :: "(addr \<rightharpoonup> 'a) \<Rightarrow> addr option \<Rightarrow> fault + 'a" where
  "deref h p =
     (case p of
        None \<Rightarrow> Inl NullDereference
      | Some a \<Rightarrow> (case h a of None \<Rightarrow> Inl DanglingDereference | Some v \<Rightarrow> Inr v))"

section \<open>Fragment\<close>

definition Fragment_empty :: Fragment where
  "Fragment_empty = \<lparr>entry = None, current = None\<rparr>"

definition Fragment_of :: "addr option \<Rightarrow> Fragment" where
  "Fragment_of instruction = \<lparr>entry = instruction, current = instruction\<rparr>"

definition is_open :: "Fragment \<Rightarrow> bool" where
  "is_open f = (entry f = None \<or> current f \<noteq> None)"

definition is_closed :: "Fragment \<Rightarrow> bool" where
  "is_closed f = (\<not> is_open f)"

text \<open>
  Modelled from the spec: \<open>Fragment::operator+=\<close> and \<open>operator+\<close> are only declared in the
  header, their bodies are not part of the sources at hand. The spec (sections 3 and 4.1)
  says: concatenation requires the left fragment to be open and a closed left operand is
  an error that is signalled (an assertion failure), never silently accepted; the empty
  fragment is a no-op; otherwise the left fragment's open exit is wired to the right
  fragment's entry and the result's \<open>current\<close> is the right fragment's \<open>current\<close>. The
  wiring is the successor link \<open>links\<close> of the instruction graph.
\<close>

definition concatenate ::
  "(addr \<rightharpoonup> addr) \<Rightarrow> Fragment \<Rightarrow> Fragment \<Rightarrow> fault + (Fragment \<times> (addr \<rightharpoonup> addr))" where
  "concatenate links a b =
     (if is_closed a then Inl AssertionFailure
      else if entry a = None then Inr (b, links)
      else if entry b = None then Inr (a, links)
      else (case current a of
              None \<Rightarrow> Inl AssertionFailure
            | Some exit \<Rightarrow>
                Inr (\<lparr>entry = entry a, current = current b\<rparr>, links(exit := entry b))))"

section \<open>Builder primitives\<close>

text \<open>
  Modelled from the spec: \<open>CatchClauseNode::kInvalidTryIndex\<close> is declared outside the
  header; it is the try-index of code that no handler protects.
\<close>

definition kInvalidTryIndex :: intptr_t where
  "kInvalidTryIndex = - 1"

text \<open>
  Modelled from the spec: \<open>BaseFlowGraphBuilder::CurrentTryIndex\<close> is only declared in the
  header. By the spec (section 3, Try-index) entering a try region makes its index the
  active one and leaving restores the enclosing index, and the header keeps the active
  regions as the chain at \<open>try_catch_block_\<close>: the current try-index is that of the
  innermost \<open>TryCatchBlock\<close>, or the invalid index outside every try region.
\<close>

definition CurrentTryIndex :: "state \<Rightarrow> fault + intptr_t" where
  "CurrentTryIndex s =
     (if try_catch_block s = None then Inr kInvalidTryIndex
      else (case deref (try_catch_blocks s) (try_catch_block s) of
              Inl f \<Rightarrow> Inl f
            | Inr b \<Rightarrow> Inr (tc_try_index b)))"

definition AllocateTryIndex :: "state \<Rightarrow> intptr_t \<times> state" where
  "AllocateTryIndex s =
     (next_used_try_index s, s\<lparr>next_used_try_index := next_used_try_index s + 1\<rparr>)"

text \<open>
  Modelled from the spec: \<open>BuildJoinEntry(try_index)\<close> is only declared in the header. By
  the spec (section 4.2) it allocates a join node tagged with the given try-index; the
  node is a new object of the graph, distinct from every node allocated before.
\<close>

definition BuildJoinEntry :: "state \<Rightarrow> intptr_t \<Rightarrow> addr \<times> state" where
  "BuildJoinEntry s try_index =
     (length (join_entries s), s\<lparr>join_entries := join_entries s @ [try_index]\<rparr>)"

section \<open>SwitchBlock\<close>

text \<open>
  A constructor returns the address of the object it built, which is the next free
  address, and the state with the object in its store; the member initialisers run
  first (among them \<open>CurrentTryIndex()\<close>), then the constructor body. A destructor takes
  the address of the object it destroys and removes it from the store. The parameter
  \<open>case_num\<close> of the source is \<open>case_no\<close> here, since \<open>case_num\<close> is a constant of HOL.
\<close>

definition SwitchBlock_ctor :: "state \<Rightarrow> intptr_t \<Rightarrow> fault + (addr \<times> state)" where
  "SwitchBlock_ctor s case_count =
     (case CurrentTryIndex s of
        Inl f \<Rightarrow> Inl f
      | Inr ti \<Rightarrow>
          (let this = next_addr s;
               blk = \<lparr>sb_outer = switch_block s,
                      sb_destinations = Map.empty,
                      sb_outer_finally = try_finally_block s,
                      sb_case_count = case_count,
                      sb_depth = 0,
                      sb_context_depth = context_depth s,
                      sb_try_index = ti\<rparr>
           in if sb_outer blk \<noteq> None then
                (case deref (switch_blocks s) (sb_outer blk) of
                   Inl f \<Rightarrow> Inl f
                 | Inr ob \<Rightarrow>
                     Inr (this,
                          s\<lparr>switch_block := Some this,
                            switch_blocks := (switch_blocks s)
                              (this \<mapsto> blk\<lparr>sb_depth := sb_depth ob + sb_case_count ob\<rparr>),
                            next_addr := Suc this\<rparr>))
              else
                Inr (this,
                     s\<lparr>switch_block := Some this,
                       switch_blocks := (switch_blocks s)(this \<mapsto> blk\<lparr>sb_depth := 0\<rparr>),
                       next_addr := Suc this\<rparr>)))"

definition SwitchBlock_dtor :: "state \<Rightarrow> addr \<Rightarrow> fault + state" where
  "SwitchBlock_dtor s this =
     (case deref (switch_blocks s) (Some this) of
        Inl f \<Rightarrow> Inl f
      | Inr blk \<Rightarrow>
          Inr (s\<lparr>switch_block := sb_outer blk,
                 switch_blocks := (switch_blocks s)(this := None)\<rparr>))"

definition SwitchBlock_HadJumper :: "state \<Rightarrow> addr \<Rightarrow> intptr_t \<Rightarrow> fault + bool" where
  "SwitchBlock_HadJumper s this case_no =
     (case deref (switch_blocks s) (Some this) of
        Inl f \<Rightarrow> Inl f
      | Inr blk \<Rightarrow> Inr (sb_destinations blk case_no \<noteq> None))"

definition SwitchBlock_EnsureDestination ::
  "state \<Rightarrow> addr option \<Rightarrow> intptr_t \<Rightarrow> fault + (addr \<times> state)" where
  "SwitchBlock_EnsureDestination s this case_no =
     (case deref (switch_blocks s) this of
        Inl f \<Rightarrow> Inl f
      | Inr blk \<Rightarrow>
          (case sb_destinations blk case_no of
             None \<Rightarrow>
               (let (inst, s1) = BuildJoinEntry s (sb_try_index blk)
                in Inr (inst,
                        s1\<lparr>switch_blocks := (switch_blocks s1)
                             (the this \<mapsto>
                                blk\<lparr>sb_destinations := (sb_destinations blk)(case_no \<mapsto> inst)\<rparr>)\<rparr>))
           | Some cached_inst \<Rightarrow> Inr (cached_inst, s)))"

text \<open>
  The \<open>while (block->depth_ > target_index) block = block->outer_;\<close> of \<open>Destination\<close>.
  Nothing in the loop bounds the walk, so it is a partial function: \<open>None\<close> is a walk
  that never ends (a cyclic chain).
\<close>

partial_function (option) Destination_loop ::
  "(addr \<rightharpoonup> SwitchBlock) \<Rightarrow> addr option \<Rightarrow> intptr_t \<Rightarrow> (fault + addr option) option" where
  "Destination_loop h block target_index =
     (case deref h block of
        Inl f \<Rightarrow> Some (Inl f)
      | Inr blk \<Rightarrow>
          if target_index <s sb_depth blk then Destination_loop h (sb_outer blk) target_index
          else Some (Inr block))"

text \<open>
  The two out-parameters \<open>outer_finally\<close> and \<open>context_depth\<close> default to \<open>NULL\<close>. The
  model passes whether each pointer is non-null (\<open>True\<close>) and returns what was written
  through it (\<open>None\<close>: nothing written). The source tests only \<open>outer_finally\<close> before
  writing through both.
\<close>

type_synonym destination = "addr \<times> addr option option \<times> intptr_t option \<times> state"

definition write_outs ::
  "SwitchBlock \<Rightarrow> bool \<Rightarrow> bool \<Rightarrow> fault + (addr option option \<times> intptr_t option)" where
  "write_outs blk outer_finally_ptr context_depth_ptr =
     (if outer_finally_ptr then
        (if context_depth_ptr then Inr (Some (sb_outer_finally blk), Some (sb_context_depth blk))
         else Inl NullDereference)
      else Inr (None, None))"

definition Destination ::
  "state \<Rightarrow> addr \<Rightarrow> intptr_t \<Rightarrow> bool \<Rightarrow> bool \<Rightarrow> (fault + destination) option" where
  "Destination s this target_index outer_finally_ptr context_depth_ptr =
     (case Destination_loop (switch_blocks s) (Some this) target_index of
        None \<Rightarrow> None
      | Some (Inl f) \<Rightarrow> Some (Inl f)
      | Some (Inr block) \<Rightarrow>
          Some (case deref (switch_blocks s) block of
                  Inl f \<Rightarrow> Inl f
                | Inr blk \<Rightarrow>
                    (case write_outs blk outer_finally_ptr context_depth_ptr of
                       Inl f \<Rightarrow> Inl f
                     | Inr (of_out, cd_out) \<Rightarrow>
                         (case SwitchBlock_EnsureDestination s block (target_index - sb_depth blk) of
                            Inl f \<Rightarrow> Inl f
                          | Inr (inst, s1) \<Rightarrow> Inr (inst, of_out, cd_out, s1)))))"

definition DestinationDirect ::
  "state \<Rightarrow> addr \<Rightarrow> intptr_t \<Rightarrow> bool \<Rightarrow> bool \<Rightarrow> fault + destination" where
  "DestinationDirect s this case_no outer_finally_ptr context_depth_ptr =
     (case deref (switch_blocks s) (Some this) of
        Inl f \<Rightarrow> Inl f
      | Inr blk \<Rightarrow>
          (case write_outs blk outer_finally_ptr context_depth_ptr of
             Inl f \<Rightarrow> Inl f
           | Inr (of_out, cd_out) \<Rightarrow>
               (case SwitchBlock_EnsureDestination s (Some this) case_no of
                  Inl f \<Rightarrow> Inl f
                | Inr (inst, s1) \<Rightarrow> Inr (inst, of_out, cd_out, s1))))"

section \<open>TryCatchBlock\<close>

definition TryCatchBlock_ctor :: "state \<Rightarrow> intptr_t \<Rightarrow> addr \<times> state" where
  "TryCatchBlock_ctor s try_handler_index =
     (let this = next_addr s;
          outer = try_catch_block s;
          (ti, s1) = (if try_handler_index = - 1 then AllocateTryIndex s
                      else (try_handler_index, s))
      in (this,
          s1\<lparr>try_catch_block := Some this,
             try_catch_blocks := (try_catch_blocks s1)
               (this \<mapsto> \<lparr>tc_outer = outer, tc_try_index = ti\<rparr>),
             next_addr := Suc this\<rparr>))"

definition TryCatchBlock_dtor :: "state \<Rightarrow> addr \<Rightarrow> fault + state" where
  "TryCatchBlock_dtor s this =
     (case deref (try_catch_blocks s) (Some this) of
        Inl f \<Rightarrow> Inl f
      | Inr blk \<Rightarrow>
          Inr (s\<lparr>try_catch_block := tc_outer blk,
                 try_catch_blocks := (try_catch_blocks s)(this := None)\<rparr>))"

section \<open>TryFinallyBlock\<close>

definition TryFinallyBlock_ctor :: "state \<Rightarrow> intptr_t \<Rightarrow> fault + (addr \<times> state)" where
  "TryFinallyBlock_ctor s finalizer_kernel_offset =
     (case CurrentTryIndex s of
        Inl f \<Rightarrow> Inl f
      | Inr ti \<Rightarrow>
          (let this = next_addr s
           in Inr (this,
                   s\<lparr>try_finally_block := Some this,
                     try_finally_blocks := (try_finally_blocks s)
                       (this \<mapsto> \<lparr>tf_outer = try_finally_block s,
                                 tf_finalizer_kernel_offset = finalizer_kernel_offset,
                                 tf_context_depth = context_depth s,
                                 tf_try_depth = try_depth s - 1,
                                 tf_try_index = ti\<rparr>),
                     next_addr := Suc this\<rparr>)))"

definition TryFinallyBlock_dtor :: "state \<Rightarrow> addr \<Rightarrow> fault + state" where
  "TryFinallyBlock_dtor s this =
     (case deref (try_finally_blocks s) (Some this) of
        Inl f \<Rightarrow> Inl f
      | Inr blk \<Rightarrow>
          Inr (s\<lparr>try_finally_block := tf_outer blk,
                 try_finally_blocks := (try_finally_blocks s)(this := None)\<rparr>))"

text \<open>The accessors \<open>finalizer_kernel_offset()\<close>, \<open>context_depth()\<close>, \<open>try_depth()\<close>,
  \<open>try_index()\<close> and \<open>outer()\<close>, called on the object at \<open>this\<close>.\<close>

definition TryFinallyBlock_get ::
  "(TryFinallyBlock \<Rightarrow> 'a) \<Rightarrow> state \<Rightarrow> addr \<Rightarrow> fault + 'a" where
  "TryFinallyBlock_get field s this =
     (case deref (try_finally_blocks s) (Some this) of
        Inl f \<Rightarrow> Inl f
      | Inr blk \<Rightarrow> Inr (field blk))"

definition finalizer_kernel_offset :: "state \<Rightarrow> addr \<Rightarrow> fault + intptr_t" where
  "finalizer_kernel_offset = TryFinallyBlock_get tf_finalizer_kernel_offset"

definition TryFinallyBlock_context_depth :: "state \<Rightarrow> addr \<Rightarrow> fault + intptr_t" where
  "TryFinallyBlock_context_depth = TryFinallyBlock_get tf_context_depth"

definition TryFinallyBlock_try_depth :: "state \<Rightarrow> addr \<Rightarrow> fault + intptr_t" where
  "TryFinallyBlock_try_depth = TryFinallyBlock_get tf_try_depth"

definition TryFinallyBlock_try_index :: "state \<Rightarrow> addr \<Rightarrow> fault + intptr_t" where
  "TryFinallyBlock_try_index = TryFinallyBlock_get tf_try_index"

definition TryFinallyBlock_outer :: "state \<Rightarrow> addr \<Rightarrow> fault + addr option" where
  "TryFinallyBlock_outer = TryFinallyBlock_get tf_outer"

section \<open>BreakableBlock\<close>

definition BreakableBlock_ctor :: "state \<Rightarrow> fault + (addr \<times> state)" where
  "BreakableBlock_ctor s =
     (case CurrentTryIndex s of
        Inl f \<Rightarrow> Inl f
      | Inr ti \<Rightarrow>
          (let this = next_addr s;
               blk = \<lparr>bb_index = 0,
                      bb_outer = breakable_block s,
                      bb_destination = None,
                      bb_outer_finally = try_finally_block s,
                      bb_context_depth = context_depth s,
                      bb_try_index = ti\<rparr>
           in if breakable_block s = None then
                Inr (this,
                     s\<lparr>breakable_block := Some this,
                       breakable_blocks := (breakable_blocks s)(this \<mapsto> blk\<lparr>bb_index := 0\<rparr>),
                       next_addr := Suc this\<rparr>)
              else
                (case deref (breakable_blocks s) (breakable_block s) of
                   Inl f \<Rightarrow> Inl f
                 | Inr ob \<Rightarrow>
                     Inr (this,
                          s\<lparr>breakable_block := Some this,
                            breakable_blocks := (breakable_blocks s)
                              (this \<mapsto> blk\<lparr>bb_index := bb_index ob + 1\<rparr>),
                            next_addr := Suc this\<rparr>))))"

definition BreakableBlock_dtor :: "state \<Rightarrow> addr \<Rightarrow> fault + state" where
  "BreakableBlock_dtor s this =
     (case deref (breakable_blocks s) (Some this) of
        Inl f \<Rightarrow> Inl f
      | Inr blk \<Rightarrow>
          Inr (s\<lparr>breakable_block := bb_outer blk,
                 breakable_blocks := (breakable_blocks s)(this := None)\<rparr>))"

definition BreakableBlock_HadJumper :: "state \<Rightarrow> addr \<Rightarrow> fault + bool" where
  "BreakableBlock_HadJumper s this =
     (case deref (breakable_blocks s) (Some this) of
        Inl f \<Rightarrow> Inl f
      | Inr blk \<Rightarrow> Inr (bb_destination blk \<noteq> None))"

definition BreakableBlock_destination :: "state \<Rightarrow> addr \<Rightarrow> fault + addr option" where
  "BreakableBlock_destination s this =
     (case deref (breakable_blocks s) (Some this) of
        Inl f \<Rightarrow> Inl f
      | Inr blk \<Rightarrow> Inr (bb_destination blk))"

definition BreakableBlock_EnsureDestination ::
  "state \<Rightarrow> addr option \<Rightarrow> fault + (addr \<times> state)" where
  "BreakableBlock_EnsureDestination s this =
     (case deref (breakable_blocks s) this of
        Inl f \<Rightarrow> Inl f
      | Inr blk \<Rightarrow>
          (case bb_destination blk of
             None \<Rightarrow>
               (let (inst, s1) = BuildJoinEntry s (bb_try_index blk)
                in Inr (inst,
                        s1\<lparr>breakable_blocks := (breakable_blocks s1)
                             (the this \<mapsto> blk\<lparr>bb_destination := Some inst\<rparr>)\<rparr>))
           | Some inst \<Rightarrow> Inr (inst, s)))"

text \<open>
  The \<open>while (block->index_ != label_index) block = block->outer_;\<close> of
  \<open>BreakDestination\<close>. The loop condition reads \<open>block->index_\<close> before anything has
  compared \<open>block\<close> with \<open>NULL\<close>.
\<close>

partial_function (option) BreakDestination_loop ::
  "(addr \<rightharpoonup> BreakableBlock) \<Rightarrow> addr option \<Rightarrow> intptr_t \<Rightarrow> (fault + addr option) option" where
  "BreakDestination_loop h block label_index =
     (case deref h block of
        Inl f \<Rightarrow> Some (Inl f)
      | Inr blk \<Rightarrow>
          if bb_index blk \<noteq> label_index then BreakDestination_loop h (bb_outer blk) label_index
          else Some (Inr block))"

text \<open>
  \<open>BreakDestination\<close> is a member function, but it reads only \<open>builder_\<close> from its own
  object and starts the walk at the builder's innermost breakable block. Its two
  out-parameters have no default and are written unconditionally; the model returns what
  is written to them next to the join node.
\<close>

type_synonym break_destination = "addr \<times> addr option \<times> intptr_t \<times> state"

definition BreakDestination ::
  "state \<Rightarrow> addr \<Rightarrow> intptr_t \<Rightarrow> (fault + break_destination) option" where
  "BreakDestination s this label_index =
     (case deref (breakable_blocks s) (Some this) of
        Inl f \<Rightarrow> Some (Inl f)
      | Inr _ \<Rightarrow>
          (case BreakDestination_loop (breakable_blocks s) (breakable_block s) label_index of
             None \<Rightarrow> None
           | Some (Inl f) \<Rightarrow> Some (Inl f)
           | Some (Inr block) \<Rightarrow>
               Some (if block = None then Inl AssertionFailure
                     else (case deref (breakable_blocks s) block of
                             Inl f \<Rightarrow> Inl f
                           | Inr blk \<Rightarrow>
                               (case BreakableBlock_EnsureDestination s block of
                                  Inl f \<Rightarrow> Inl f
                                | Inr (inst, s1) \<Rightarrow>
                                    Inr (inst, bb_outer_finally blk, bb_context_depth blk, s1))))))"

section \<open>CatchBlock\<close>

definition CatchBlock_ctor ::
  "state \<Rightarrow> addr option \<Rightarrow> addr option \<Rightarrow> intptr_t \<Rightarrow> addr \<times> state" where
  "CatchBlock_ctor s exception_var stack_trace_var catch_try_index =
     (let this = next_addr s
      in (this,
          s\<lparr>catch_block := Some this,
            catch_blocks := (catch_blocks s)
              (this \<mapsto> \<lparr>cb_outer = catch_block s,
                        cb_exception_var = exception_var,
                        cb_stack_trace_var = stack_trace_var,
                        cb_catch_try_index = catch_try_index\<rparr>),
            next_addr := Suc this\<rparr>))"

definition CatchBlock_dtor :: "state \<Rightarrow> addr \<Rightarrow> fault + state" where
  "CatchBlock_dtor s this =
     (case deref (catch_blocks s) (Some this) of
        Inl f \<Rightarrow> Inl f
      | Inr blk \<Rightarrow>
          Inr (s\<lparr>catch_block := cb_outer blk,
                 catch_blocks := (catch_blocks s)(this := None)\<rparr>))"

section \<open>Translation runs\<close>

text \<open>
  Modelled from the spec: the constructor of \<open>FlowGraphBuilder\<close> is only declared in
  the header. A translation starts from a builder with empty chains: the base class
  constructor (which is in the header) zeroes \<open>context_depth_\<close> and
  \<open>next_used_try_index_\<close> and clears \<open>try_catch_block_\<close>; by the spec the other four
  chains are empty before the first construct is entered, and \<open>try_depth_\<close> counts the
  surrounding try regions, none at the start.
\<close>

definition initial_state :: state where
  "initial_state =
     \<lparr>context_depth = 0, try_depth = 0, next_used_try_index = 0,
      try_catch_block = None, breakable_block = None, switch_block = None,
      try_finally_block = None, catch_block = None,
      switch_blocks = Map.empty, try_catch_blocks = Map.empty,
      try_finally_blocks = Map.empty, breakable_blocks = Map.empty,
      catch_blocks = Map.empty, join_entries = [], next_addr = 0\<rparr>"

text \<open>
  One step of a translation, as far as the header's classes see it. The records are
  automatic objects of nested C++ scopes, so the record a step destroys is the innermost
  one of its chain. The driver (a friend class, outside the header) moves
  \<open>context_depth_\<close> and \<open>try_depth_\<close> as it enters and leaves scopes; those two steps may
  set them to any value.
\<close>

inductive step :: "state \<Rightarrow> state \<Rightarrow> bool" where
  enter_switch: "SwitchBlock_ctor s case_count = Inr (a, s') \<Longrightarrow> step s s'"
| leave_switch: "switch_block s = Some a \<Longrightarrow> SwitchBlock_dtor s a = Inr s' \<Longrightarrow> step s s'"
| enter_try_catch: "TryCatchBlock_ctor s try_handler_index = (a, s') \<Longrightarrow> step s s'"
| leave_try_catch:
    "try_catch_block s = Some a \<Longrightarrow> TryCatchBlock_dtor s a = Inr s' \<Longrightarrow> step s s'"
| enter_try_finally: "TryFinallyBlock_ctor s offset = Inr (a, s') \<Longrightarrow> step s s'"
| leave_try_finally:
    "try_finally_block s = Some a \<Longrightarrow> TryFinallyBlock_dtor s a = Inr s' \<Longrightarrow> step s s'"
| enter_breakable: "BreakableBlock_ctor s = Inr (a, s') \<Longrightarrow> step s s'"
| leave_breakable:
    "breakable_block s = Some a \<Longrightarrow> BreakableBlock_dtor s a = Inr s' \<Longrightarrow> step s s'"
| enter_catch: "CatchBlock_ctor s ev sv catch_try_index = (a, s') \<Longrightarrow> step s s'"
| leave_catch: "catch_block s = Some a \<Longrightarrow> CatchBlock_dtor s a = Inr s' \<Longrightarrow> step s s'"
| resolve_break: "BreakDestination s this label_index = Some (Inr (j, f, d, s')) \<Longrightarrow> step s s'"
| resolve_case: "Destination s this target_index fp dp = Some (Inr (j, f, d, s')) \<Longrightarrow> step s s'"
| resolve_case_direct: "DestinationDirect s this case_no fp dp = Inr (j, f, d, s') \<Longrightarrow> step s s'"
| driver_context_depth: "step s (s\<lparr>context_depth := d\<rparr>)"
| driver_try_depth: "step s (s\<lparr>try_depth := d\<rparr>)"

inductive reachable :: "state \<Rightarrow> bool" where
  start: "reachable initial_state"
| after: "reachable s \<Longrightarrow> step s s' \<Longrightarrow> reachable s'"

section \<open>Chains\<close>

text \<open>\<open>chain h outer p as\<close>: following the \<open>outer\<close> links from \<open>p\<close> visits exactly the
  live objects \<open>as\<close>, innermost first, and ends at \<open>NULL\<close>.\<close>

fun chain :: "(addr \<rightharpoonup> 'a) \<Rightarrow> ('a \<Rightarrow> addr option) \<Rightarrow> addr option \<Rightarrow> addr list \<Rightarrow> bool" where
  "chain h outer p [] = (p = None)"
| "chain h outer p (a # as) =
     (p = Some a \<and> (case h a of None \<Rightarrow> False | Some blk \<Rightarrow> chain h outer (outer blk) as))"

section \<open>Predicates used by the statements\<close>

text \<open>
  Of a \<open>SwitchBlock\<close> only \<open>destinations_\<close> is ever assigned after construction, of a
  \<open>BreakableBlock\<close> only \<open>destination_\<close>. \<open>sb_fixed\<close> and \<open>bb_fixed\<close> blank that one
  field, so two records agree on every other field exactly when their images agree.
\<close>

definition sb_fixed :: "SwitchBlock \<Rightarrow> SwitchBlock" where
  "sb_fixed blk = blk\<lparr>sb_destinations := Map.empty\<rparr>"

definition bb_fixed :: "BreakableBlock \<Rightarrow> BreakableBlock" where
  "bb_fixed blk = blk\<lparr>bb_destination := None\<rparr>"

text \<open>What a case resolution (a break resolution) may change: the join nodes and the
  \<open>destinations_\<close> (\<open>destination_\<close>) caches, nothing else.\<close>

definition switch_frame :: "state \<Rightarrow> state \<Rightarrow> bool" where
  "switch_frame s s' =
     (s' = s\<lparr>switch_blocks := switch_blocks s', join_entries := join_entries s'\<rparr> \<and>
      (\<forall>a. map_option sb_fixed (switch_blocks s' a) = map_option sb_fixed (switch_blocks s a)))"

definition breakable_frame :: "state \<Rightarrow> state \<Rightarrow> bool" where
  "breakable_frame s s' =
     (s' = s\<lparr>breakable_blocks := breakable_blocks s', join_entries := join_entries s'\<rparr> \<and>
      (\<forall>a. map_option bb_fixed (breakable_blocks s' a) =
           map_option bb_fixed (breakable_blocks s a)))"

text \<open>The innermost block of the chain \<open>as\<close> whose label index is \<open>label_index\<close>: the
  breakable construct a \<open>break\<close> to that label targets.\<close>

fun find_label :: "(addr \<rightharpoonup> BreakableBlock) \<Rightarrow> addr list \<Rightarrow> intptr_t \<Rightarrow> addr option" where
  "find_label h [] label_index = None"
| "find_label h (a # as) label_index =
     (case h a of
        None \<Rightarrow> None
      | Some blk \<Rightarrow> if bb_index blk = label_index then Some a else find_label h as label_index)"

text \<open>\<open>n\<close> break resolutions for one label, made one after the other; the result lists
  the join nodes the calls returned, in order.\<close>

fun BreakDestinations ::
  "state \<Rightarrow> addr \<Rightarrow> intptr_t \<Rightarrow> nat \<Rightarrow> (fault + (addr list \<times> state)) option" where
  "BreakDestinations s this label_index 0 = Some (Inr ([], s))"
| "BreakDestinations s this label_index (Suc n) =
     (case BreakDestination s this label_index of
        None \<Rightarrow> None
      | Some (Inl f) \<Rightarrow> Some (Inl f)
      | Some (Inr (j, f, d, s1)) \<Rightarrow>
          (case BreakDestinations s1 this label_index n of
             None \<Rightarrow> None
           | Some (Inl f) \<Rightarrow> Some (Inl f)
           | Some (Inr (js, s2)) \<Rightarrow> Some (Inr (j # js, s2))))"

text \<open>The join node cached for relative case \<open>case_no\<close> of the switch block at \<open>a\<close>, the
  entry of \<open>destinations_\<close> that \<open>HadJumper\<close> tests.\<close>

definition case_destination :: "state \<Rightarrow> addr \<Rightarrow> intptr_t \<Rightarrow> addr option" where
  "case_destination s a case_no =
     (case switch_blocks s a of None \<Rightarrow> None | Some blk \<Rightarrow> sb_destinations blk case_no)"

text \<open>The sum of the case counts of the switch blocks \<open>as\<close>, and the statement that
  every block of a chain has as \<open>depth_\<close> the sum of the case counts of the blocks
  enclosing it.\<close>

fun enclosing_case_count :: "(addr \<rightharpoonup> SwitchBlock) \<Rightarrow> addr list \<Rightarrow> intptr_t" where
  "enclosing_case_count h [] = 0"
| "enclosing_case_count h (a # as) =
     (case h a of None \<Rightarrow> 0 | Some blk \<Rightarrow> sb_case_count blk) + enclosing_case_count h as"

fun depths_ok :: "(addr \<rightharpoonup> SwitchBlock) \<Rightarrow> addr list \<Rightarrow> bool" where
  "depths_ok h [] = True"
| "depths_ok h (a # as) =
     (map_option sb_depth (h a) = Some (enclosing_case_count h as) \<and> depths_ok h as)"

text \<open>The invariants of a translation run: the chain is well formed and without
  repetition, every live record lies below the next free address, for switch blocks the
  depths are the sums of the enclosing case counts, and for breakable blocks the label
  indexes count the enclosing blocks (\<open>labels_ok\<close>: the outermost block has label 0, the
  next one 1, and so on).\<close>

definition switch_inv :: "state \<Rightarrow> addr list \<Rightarrow> bool" where
  "switch_inv s as =
     (chain (switch_blocks s) sb_outer (switch_block s) as \<and> distinct as \<and>
      (\<forall>a. switch_blocks s a \<noteq> None \<longrightarrow> a < next_addr s) \<and>
      depths_ok (switch_blocks s) as)"

fun labels_ok :: "(addr \<rightharpoonup> BreakableBlock) \<Rightarrow> addr list \<Rightarrow> bool" where
  "labels_ok h [] = True"
| "labels_ok h (a # as) =
     (map_option bb_index (h a) = Some (of_nat (length as)) \<and> labels_ok h as)"

definition breakable_inv :: "state \<Rightarrow> addr list \<Rightarrow> bool" where
  "breakable_inv s as =
     (chain (breakable_blocks s) bb_outer (breakable_block s) as \<and> distinct as \<and>
      (\<forall>a. breakable_blocks s a \<noteq> None \<longrightarrow> a < next_addr s) \<and>
      labels_ok (breakable_blocks s) as)"

definition try_catch_inv :: "state \<Rightarrow> addr list \<Rightarrow> bool" where
  "try_catch_inv s as =
     (chain (try_catch_blocks s) tc_outer (try_catch_block s) as \<and> distinct as \<and>
      (\<forall>a. try_catch_blocks s a \<noteq> None \<longrightarrow> a < next_addr s))"

section \<open>Fragment: open, closed, concatenation\<close>

lemma is_closed_iff: "is_closed f \<longleftrightarrow> entry f \<noteq> None \<and> current f = None"
  by (auto simp: is_closed_def is_open_def)

text \<open>
  C3. For every Fragment \<open>f\<close>, \<open>is_open\<close> holds exactly when \<open>entry\<close> is absent or
  \<open>current\<close> is present, \<open>is_closed\<close> holds exactly when \<open>entry\<close> is present and
  \<open>current\<close> is absent, and \<open>is_closed\<close> is the negation of \<open>is_open\<close>.
\<close>

theorem fragment_open_closed:
  "(is_open f \<longleftrightarrow> entry f = None \<or> current f \<noteq> None) \<and>
   (is_closed f \<longleftrightarrow> entry f \<noteq> None \<and> current f = None) \<and>
   (is_closed f \<longleftrightarrow> \<not> is_open f)"
  by (auto simp: is_closed_def is_open_def)

theorem fragment_open_closed_witness:
  "is_open \<lparr>entry = None, current = None\<rparr> \<and>
   is_open \<lparr>entry = Some 1, current = Some 2\<rparr> \<and>
   is_closed \<lparr>entry = Some 1, current = None\<rparr> \<and>
   \<not> is_open \<lparr>entry = Some 1, current = None\<rparr> \<and>
   \<not> is_closed \<lparr>entry = Some 1, current = Some 2\<rparr>"
  using fragment_open_closed [of "\<lparr>entry = None, current = None\<rparr>"]
        fragment_open_closed [of "\<lparr>entry = Some 1, current = Some 2\<rparr>"]
        fragment_open_closed [of "\<lparr>entry = Some 1, current = None\<rparr>"]
  by simp

text \<open>
  C4. Concatenating onto a closed, non-empty left fragment (entry present, current
  absent) is rejected with an assertion failure whatever the right fragment and the
  graph are; it never yields a fragment.
\<close>

theorem concatenate_closed_left_faults:
  "is_closed a \<Longrightarrow>
     entry a \<noteq> None \<and> current a = None \<and>
     concatenate links a b = Inl AssertionFailure \<and>
     (\<forall>r. concatenate links a b \<noteq> Inr r)"
  by (simp add: concatenate_def is_closed_iff)

theorem concatenate_closed_left_faults_witness:
  "is_closed \<lparr>entry = Some 1, current = None\<rparr> \<and>
   concatenate Map.empty \<lparr>entry = Some 1, current = None\<rparr> \<lparr>entry = Some 2, current = Some 3\<rparr> =
     Inl AssertionFailure"
proof -
  have c: "is_closed \<lparr>entry = Some 1, current = None\<rparr>"
    by (simp add: is_closed_def is_open_def)
  from concatenate_closed_left_faults [OF c, of Map.empty "\<lparr>entry = Some 2, current = Some 3\<rparr>"] c
  show ?thesis by simp
qed

text \<open>
  C5. For an open left fragment \<open>a\<close>, concatenation succeeds; when neither fragment is
  empty the result's entry is \<open>a\<close>'s entry and its current is \<open>b\<close>'s current (and the
  exit of \<open>a\<close> is linked to the entry of \<open>b\<close>); an empty \<open>a\<close> yields \<open>b\<close> and an empty
  \<open>b\<close> yields \<open>a\<close>, the graph untouched in both cases.
\<close>

theorem concatenate_open_left:
  "is_open a \<Longrightarrow>
     (entry a \<noteq> None \<and> entry b \<noteq> None \<longrightarrow>
        (\<exists>r links' exit. concatenate links a b = Inr (r, links') \<and>
           entry r = entry a \<and> current r = current b \<and>
           current a = Some exit \<and> links' = links(exit := entry b))) \<and>
     (entry a = None \<longrightarrow> concatenate links a b = Inr (b, links)) \<and>
     (entry a \<noteq> None \<and> entry b = None \<longrightarrow> concatenate links a b = Inr (a, links))"
  by (auto simp: concatenate_def is_closed_def is_open_def split: option.splits)

theorem concatenate_open_left_witness:
  "is_open \<lparr>entry = Some 1, current = Some 2\<rparr> \<and> is_open Fragment_empty \<and>
   (\<exists>r links'. concatenate Map.empty \<lparr>entry = Some 1, current = Some 2\<rparr>
                    \<lparr>entry = Some 3, current = Some 4\<rparr> = Inr (r, links') \<and>
                 entry r = Some 1 \<and> current r = Some 4 \<and> links' 2 = Some 3) \<and>
   concatenate Map.empty Fragment_empty \<lparr>entry = Some 3, current = Some 4\<rparr> =
     Inr (\<lparr>entry = Some 3, current = Some 4\<rparr>, Map.empty) \<and>
   concatenate Map.empty \<lparr>entry = Some 1, current = Some 2\<rparr> Fragment_empty =
     Inr (\<lparr>entry = Some 1, current = Some 2\<rparr>, Map.empty)"
proof -
  have o1: "is_open \<lparr>entry = Some 1, current = Some 2\<rparr>" by (simp add: is_open_def)
  have o2: "is_open Fragment_empty" by (simp add: is_open_def Fragment_empty_def)
  from concatenate_open_left [OF o1, of "\<lparr>entry = Some 3, current = Some 4\<rparr>" Map.empty]
       concatenate_open_left [OF o1, of Fragment_empty Map.empty]
       concatenate_open_left [OF o2, of "\<lparr>entry = Some 3, current = Some 4\<rparr>" Map.empty]
       o1 o2
  show ?thesis by (auto simp: Fragment_empty_def)
qed

section \<open>What a step leaves unchanged\<close>

text \<open>
  A resolution only fills a destination cache and allocates a join node; every other step
  touches one chain. Addresses are never reused, so a record that is alive after a run of
  steps is the record that was constructed, with its immutable fields as they were.
\<close>

lemma switch_frame_refl: "switch_frame s s"
  by (simp add: switch_frame_def)

lemma breakable_frame_refl: "breakable_frame s s"
  by (simp add: breakable_frame_def)

lemma SwitchBlock_EnsureDestination_frame:
  assumes "SwitchBlock_EnsureDestination s p n = Inr (j, s')"
  shows "switch_frame s s'"
proof (cases "deref (switch_blocks s) p")
  case (Inl f)
  with assms show ?thesis by (simp add: SwitchBlock_EnsureDestination_def)
next
  case (Inr blk)
  then obtain a where p: "p = Some a" and live: "switch_blocks s a = Some blk"
    by (auto simp: deref_def split: option.splits)
  show ?thesis
  proof (cases "sb_destinations blk n")
    case None
    from assms Inr None p
    have "s' = s\<lparr>switch_blocks :=
                   (switch_blocks s)(a \<mapsto> blk\<lparr>sb_destinations := (sb_destinations blk)(n \<mapsto> j)\<rparr>),
                 join_entries := join_entries s @ [sb_try_index blk]\<rparr>"
      by (auto simp: SwitchBlock_EnsureDestination_def BuildJoinEntry_def)
    then show ?thesis
      using live by (simp add: switch_frame_def sb_fixed_def)
  next
    case (Some c)
    with assms Inr have "s' = s"
      by (simp add: SwitchBlock_EnsureDestination_def)
    then show ?thesis by (simp add: switch_frame_refl)
  qed
qed

lemma BreakableBlock_EnsureDestination_frame:
  assumes "BreakableBlock_EnsureDestination s p = Inr (j, s')"
  shows "breakable_frame s s'"
proof (cases "deref (breakable_blocks s) p")
  case (Inl f)
  with assms show ?thesis by (simp add: BreakableBlock_EnsureDestination_def)
next
  case (Inr blk)
  then obtain a where p: "p = Some a" and live: "breakable_blocks s a = Some blk"
    by (auto simp: deref_def split: option.splits)
  show ?thesis
  proof (cases "bb_destination blk")
    case None
    from assms Inr None p
    have "s' = s\<lparr>breakable_blocks := (breakable_blocks s)(a \<mapsto> blk\<lparr>bb_destination := Some j\<rparr>),
                 join_entries := join_entries s @ [bb_try_index blk]\<rparr>"
      by (auto simp: BreakableBlock_EnsureDestination_def BuildJoinEntry_def)
    then show ?thesis
      using live by (simp add: breakable_frame_def bb_fixed_def)
  next
    case (Some c)
    with assms Inr have "s' = s"
      by (simp add: BreakableBlock_EnsureDestination_def)
    then show ?thesis by (simp add: breakable_frame_refl)
  qed
qed

lemma Destination_frame:
  assumes "Destination s this t fp dp = Some (Inr (j, f, d, s'))"
  shows "switch_frame s s'"
  using assms
  by (auto simp: Destination_def split: option.splits sum.splits
           dest: SwitchBlock_EnsureDestination_frame)

lemma DestinationDirect_frame:
  assumes "DestinationDirect s this n fp dp = Inr (j, f, d, s')"
  shows "switch_frame s s'"
  using assms
  by (auto simp: DestinationDirect_def split: option.splits sum.splits
           dest: SwitchBlock_EnsureDestination_frame)

lemma BreakDestination_frame:
  assumes "BreakDestination s this L = Some (Inr (j, f, d, s'))"
  shows "breakable_frame s s'"
  using assms
  by (auto simp: BreakDestination_def split: option.splits sum.splits if_splits
           dest: BreakableBlock_EnsureDestination_frame)

lemmas ctor_dtor_defs =
  SwitchBlock_ctor_def SwitchBlock_dtor_def TryCatchBlock_ctor_def TryCatchBlock_dtor_def
  TryFinallyBlock_ctor_def TryFinallyBlock_dtor_def BreakableBlock_ctor_def
  BreakableBlock_dtor_def CatchBlock_ctor_def CatchBlock_dtor_def AllocateTryIndex_def

lemma step_next_addr: "step s s' \<Longrightarrow> next_addr s \<le> next_addr s'"
proof (induction rule: step.induct)
  case (resolve_break s this label_index j f d s')
  from BreakDestination_frame [OF this] show ?case
    by (auto simp: breakable_frame_def dest: arg_cong [where f = next_addr])
next
  case (resolve_case s this target_index fp dp j f d s')
  from Destination_frame [OF this] show ?case
    by (auto simp: switch_frame_def dest: arg_cong [where f = next_addr])
next
  case (resolve_case_direct s this case_no fp dp j f d s')
  from DestinationDirect_frame [OF this] show ?case
    by (auto simp: switch_frame_def dest: arg_cong [where f = next_addr])
qed (auto simp: ctor_dtor_defs Let_def split: sum.splits if_splits prod.splits)

lemma steps_next_addr: "step\<^sup>*\<^sup>* s s' \<Longrightarrow> next_addr s \<le> next_addr s'"
  by (induction rule: rtranclp_induct) (auto dest: step_next_addr)

lemma step_try_finally_blocks:
  "step s s' \<Longrightarrow> a < next_addr s \<Longrightarrow> try_finally_blocks s' a \<noteq> None \<Longrightarrow>
     try_finally_blocks s' a = try_finally_blocks s a"
proof (induction rule: step.induct)
  case (resolve_break s this label_index j f d s')
  from BreakDestination_frame [OF this(1)] show ?case
    by (auto simp: breakable_frame_def dest: arg_cong [where f = try_finally_blocks])
next
  case (resolve_case s this target_index fp dp j f d s')
  from Destination_frame [OF this(1)] show ?case
    by (auto simp: switch_frame_def dest: arg_cong [where f = try_finally_blocks])
next
  case (resolve_case_direct s this case_no fp dp j f d s')
  from DestinationDirect_frame [OF this(1)] show ?case
    by (auto simp: switch_frame_def dest: arg_cong [where f = try_finally_blocks])
qed (auto simp: ctor_dtor_defs Let_def split: sum.splits if_splits prod.splits)

lemma steps_try_finally_blocks:
  "step\<^sup>*\<^sup>* s s' \<Longrightarrow> a < next_addr s \<Longrightarrow> try_finally_blocks s' a \<noteq> None \<Longrightarrow>
     try_finally_blocks s' a = try_finally_blocks s a"
proof (induction rule: rtranclp_induct)
  case base
  show ?case by simp
next
  case (step y z)
  from step.hyps(1) have "next_addr s \<le> next_addr y" by (rule steps_next_addr)
  with step.prems have lt: "a < next_addr y" by simp
  have eq: "try_finally_blocks z a = try_finally_blocks y a"
    using step.hyps(2) lt step.prems(2) by (rule step_try_finally_blocks)
  with step.prems(2) have "try_finally_blocks y a \<noteq> None" by simp
  with step.IH step.prems(1) eq show ?case by simp
qed

lemma step_try_catch_blocks:
  "step s s' \<Longrightarrow> a < next_addr s \<Longrightarrow> try_catch_blocks s' a \<noteq> None \<Longrightarrow>
     try_catch_blocks s' a = try_catch_blocks s a"
proof (induction rule: step.induct)
  case (resolve_break s this label_index j f d s')
  from BreakDestination_frame [OF this(1)] show ?case
    by (auto simp: breakable_frame_def dest: arg_cong [where f = try_catch_blocks])
next
  case (resolve_case s this target_index fp dp j f d s')
  from Destination_frame [OF this(1)] show ?case
    by (auto simp: switch_frame_def dest: arg_cong [where f = try_catch_blocks])
next
  case (resolve_case_direct s this case_no fp dp j f d s')
  from DestinationDirect_frame [OF this(1)] show ?case
    by (auto simp: switch_frame_def dest: arg_cong [where f = try_catch_blocks])
qed (auto simp: ctor_dtor_defs Let_def split: sum.splits if_splits prod.splits)

lemma steps_try_catch_blocks:
  "step\<^sup>*\<^sup>* s s' \<Longrightarrow> a < next_addr s \<Longrightarrow> try_catch_blocks s' a \<noteq> None \<Longrightarrow>
     try_catch_blocks s' a = try_catch_blocks s a"
proof (induction rule: rtranclp_induct)
  case base
  show ?case by simp
next
  case (step y z)
  from step.hyps(1) have "next_addr s \<le> next_addr y" by (rule steps_next_addr)
  with step.prems have lt: "a < next_addr y" by simp
  have eq: "try_catch_blocks z a = try_catch_blocks y a"
    using step.hyps(2) lt step.prems(2) by (rule step_try_catch_blocks)
  with step.prems(2) have "try_catch_blocks y a \<noteq> None" by simp
  with step.IH step.prems(1) eq show ?case by simp
qed

lemma step_catch_blocks:
  "step s s' \<Longrightarrow> a < next_addr s \<Longrightarrow> catch_blocks s' a \<noteq> None \<Longrightarrow>
     catch_blocks s' a = catch_blocks s a"
proof (induction rule: step.induct)
  case (resolve_break s this label_index j f d s')
  from BreakDestination_frame [OF this(1)] show ?case
    by (auto simp: breakable_frame_def dest: arg_cong [where f = catch_blocks])
next
  case (resolve_case s this target_index fp dp j f d s')
  from Destination_frame [OF this(1)] show ?case
    by (auto simp: switch_frame_def dest: arg_cong [where f = catch_blocks])
next
  case (resolve_case_direct s this case_no fp dp j f d s')
  from DestinationDirect_frame [OF this(1)] show ?case
    by (auto simp: switch_frame_def dest: arg_cong [where f = catch_blocks])
qed (auto simp: ctor_dtor_defs Let_def split: sum.splits if_splits prod.splits)

lemma steps_catch_blocks:
  "step\<^sup>*\<^sup>* s s' \<Longrightarrow> a < next_addr s \<Longrightarrow> catch_blocks s' a \<noteq> None \<Longrightarrow>
     catch_blocks s' a = catch_blocks s a"
proof (induction rule: rtranclp_induct)
  case base
  show ?case by simp
next
  case (step y z)
  from step.hyps(1) have "next_addr s \<le> next_addr y" by (rule steps_next_addr)
  with step.prems have lt: "a < next_addr y" by simp
  have eq: "catch_blocks z a = catch_blocks y a"
    using step.hyps(2) lt step.prems(2) by (rule step_catch_blocks)
  with step.prems(2) have "catch_blocks y a \<noteq> None" by simp
  with step.IH step.prems(1) eq show ?case by simp
qed

lemma step_switch_blocks:
  "step s s' \<Longrightarrow> a < next_addr s \<Longrightarrow> switch_blocks s' a \<noteq> None \<Longrightarrow>
     map_option sb_fixed (switch_blocks s' a) = map_option sb_fixed (switch_blocks s a)"
proof (induction rule: step.induct)
  case (resolve_break s this label_index j f d s')
  from BreakDestination_frame [OF this(1)] show ?case
    by (auto simp: breakable_frame_def dest: arg_cong [where f = switch_blocks])
next
  case (resolve_case s this target_index fp dp j f d s')
  from Destination_frame [OF this(1)] show ?case
    by (auto simp: switch_frame_def dest: arg_cong [where f = switch_blocks])
next
  case (resolve_case_direct s this case_no fp dp j f d s')
  from DestinationDirect_frame [OF this(1)] show ?case
    by (auto simp: switch_frame_def dest: arg_cong [where f = switch_blocks])
qed (auto simp: ctor_dtor_defs Let_def split: sum.splits if_splits prod.splits)

lemma steps_switch_blocks:
  "step\<^sup>*\<^sup>* s s' \<Longrightarrow> a < next_addr s \<Longrightarrow> switch_blocks s' a \<noteq> None \<Longrightarrow>
     map_option sb_fixed (switch_blocks s' a) = map_option sb_fixed (switch_blocks s a)"
proof (induction rule: rtranclp_induct)
  case base
  show ?case by simp
next
  case (step y z)
  from step.hyps(1) have "next_addr s \<le> next_addr y" by (rule steps_next_addr)
  with step.prems have lt: "a < next_addr y" by simp
  have eq: "map_option sb_fixed (switch_blocks z a) = map_option sb_fixed (switch_blocks y a)"
    using step.hyps(2) lt step.prems(2) by (rule step_switch_blocks)
  with step.prems(2) have "switch_blocks y a \<noteq> None" by (cases "switch_blocks y a") auto
  with step.IH step.prems(1) eq show ?case by simp
qed

lemma step_breakable_blocks:
  "step s s' \<Longrightarrow> a < next_addr s \<Longrightarrow> breakable_blocks s' a \<noteq> None \<Longrightarrow>
     map_option bb_fixed (breakable_blocks s' a) = map_option bb_fixed (breakable_blocks s a)"
proof (induction rule: step.induct)
  case (resolve_break s this label_index j f d s')
  from BreakDestination_frame [OF this(1)] show ?case
    by (auto simp: breakable_frame_def dest: arg_cong [where f = breakable_blocks])
next
  case (resolve_case s this target_index fp dp j f d s')
  from Destination_frame [OF this(1)] show ?case
    by (auto simp: switch_frame_def dest: arg_cong [where f = breakable_blocks])
next
  case (resolve_case_direct s this case_no fp dp j f d s')
  from DestinationDirect_frame [OF this(1)] show ?case
    by (auto simp: switch_frame_def dest: arg_cong [where f = breakable_blocks])
qed (auto simp: ctor_dtor_defs Let_def split: sum.splits if_splits prod.splits)

lemma steps_breakable_blocks:
  "step\<^sup>*\<^sup>* s s' \<Longrightarrow> a < next_addr s \<Longrightarrow> breakable_blocks s' a \<noteq> None \<Longrightarrow>
     map_option bb_fixed (breakable_blocks s' a) = map_option bb_fixed (breakable_blocks s a)"
proof (induction rule: rtranclp_induct)
  case base
  show ?case by simp
next
  case (step y z)
  from step.hyps(1) have "next_addr s \<le> next_addr y" by (rule steps_next_addr)
  with step.prems have lt: "a < next_addr y" by simp
  have eq: "map_option bb_fixed (breakable_blocks z a) = map_option bb_fixed (breakable_blocks y a)"
    using step.hyps(2) lt step.prems(2) by (rule step_breakable_blocks)
  with step.prems(2) have "breakable_blocks y a \<noteq> None" by (cases "breakable_blocks y a") auto
  with step.IH step.prems(1) eq show ?case by simp
qed

section \<open>TryFinallyBlock: the recorded values\<close>

lemma TryFinallyBlock_ctor_result:
  assumes "CurrentTryIndex s = Inr ti"
  shows "TryFinallyBlock_ctor s off =
           Inr (next_addr s,
                s\<lparr>try_finally_block := Some (next_addr s),
                  try_finally_blocks := (try_finally_blocks s)
                    (next_addr s \<mapsto> \<lparr>tf_outer = try_finally_block s,
                                     tf_finalizer_kernel_offset = off,
                                     tf_context_depth = context_depth s,
                                     tf_try_depth = try_depth s - 1,
                                     tf_try_index = ti\<rparr>),
                  next_addr := Suc (next_addr s)\<rparr>)"
  using assms by (simp add: TryFinallyBlock_ctor_def Let_def)

text \<open>
  C6. Where the builder has a current try-index \<open>ti\<close>, constructing a
  \<open>TryFinallyBlock\<close> succeeds, and in every later state of the translation in which
  the block is still alive its accessors return the finalizer's kernel offset passed to
  the constructor, the builder's context depth at construction, the try-index at
  construction and the builder's \<open>try_depth_\<close> at construction minus one, whatever the
  steps in between did to the builder.
\<close>

theorem TryFinallyBlock_records:
  assumes "CurrentTryIndex s = Inr ti"
  shows "\<exists>a s1. TryFinallyBlock_ctor s off = Inr (a, s1) \<and>
           (\<forall>s2. step\<^sup>*\<^sup>* s1 s2 \<and> try_finally_blocks s2 a \<noteq> None \<longrightarrow>
              finalizer_kernel_offset s2 a = Inr off \<and>
              TryFinallyBlock_context_depth s2 a = Inr (context_depth s) \<and>
              TryFinallyBlock_try_index s2 a = Inr ti \<and>
              TryFinallyBlock_try_depth s2 a = Inr (try_depth s - 1))"
proof -
  let ?a = "next_addr s"
  let ?blk = "\<lparr>tf_outer = try_finally_block s, tf_finalizer_kernel_offset = off,
               tf_context_depth = context_depth s, tf_try_depth = try_depth s - 1,
               tf_try_index = ti\<rparr>"
  let ?s1 = "s\<lparr>try_finally_block := Some ?a,
               try_finally_blocks := (try_finally_blocks s)(?a \<mapsto> ?blk),
               next_addr := Suc ?a\<rparr>"
  have ctor: "TryFinallyBlock_ctor s off = Inr (?a, ?s1)"
    using assms by (rule TryFinallyBlock_ctor_result)
  have "finalizer_kernel_offset s2 ?a = Inr off \<and>
        TryFinallyBlock_context_depth s2 ?a = Inr (context_depth s) \<and>
        TryFinallyBlock_try_index s2 ?a = Inr ti \<and>
        TryFinallyBlock_try_depth s2 ?a = Inr (try_depth s - 1)"
    if run: "step\<^sup>*\<^sup>* ?s1 s2" and live: "try_finally_blocks s2 ?a \<noteq> None" for s2
  proof -
    have "?a < next_addr ?s1" by simp
    with run have "try_finally_blocks s2 ?a = try_finally_blocks ?s1 ?a"
      using live by (rule steps_try_finally_blocks)
    then have "try_finally_blocks s2 ?a = Some ?blk" by simp
    then show ?thesis
      by (simp add: finalizer_kernel_offset_def TryFinallyBlock_context_depth_def
            TryFinallyBlock_try_index_def TryFinallyBlock_try_depth_def
            TryFinallyBlock_get_def deref_def)
  qed
  with ctor show ?thesis by blast
qed

theorem TryFinallyBlock_records_witness:
  "CurrentTryIndex initial_state = Inr (- 1) \<and>
   (\<exists>a s1. TryFinallyBlock_ctor (initial_state\<lparr>context_depth := 4, try_depth := 2\<rparr>) 7 =
              Inr (a, s1) \<and>
            step\<^sup>*\<^sup>* s1 (s1\<lparr>try_depth := 5\<rparr>) \<and>
            finalizer_kernel_offset (s1\<lparr>try_depth := 5\<rparr>) a = Inr 7 \<and>
            TryFinallyBlock_context_depth (s1\<lparr>try_depth := 5\<rparr>) a = Inr 4 \<and>
            TryFinallyBlock_try_index (s1\<lparr>try_depth := 5\<rparr>) a = Inr (- 1) \<and>
            TryFinallyBlock_try_depth (s1\<lparr>try_depth := 5\<rparr>) a = Inr 1)"
proof -
  let ?s = "initial_state\<lparr>context_depth := 4, try_depth := 2\<rparr>"
  have ti0: "CurrentTryIndex initial_state = Inr (- 1)"
    by (simp add: CurrentTryIndex_def kInvalidTryIndex_def initial_state_def)
  have ti: "CurrentTryIndex ?s = Inr (- 1)"
    by (simp add: CurrentTryIndex_def kInvalidTryIndex_def initial_state_def)
  from TryFinallyBlock_records [OF ti, of 7] obtain a s1 where
    ctor: "TryFinallyBlock_ctor ?s 7 = Inr (a, s1)"
    and later: "\<And>s2. step\<^sup>*\<^sup>* s1 s2 \<Longrightarrow> try_finally_blocks s2 a \<noteq> None \<Longrightarrow>
              finalizer_kernel_offset s2 a = Inr 7 \<and>
              TryFinallyBlock_context_depth s2 a = Inr (context_depth ?s) \<and>
              TryFinallyBlock_try_index s2 a = Inr (- 1) \<and>
              TryFinallyBlock_try_depth s2 a = Inr (try_depth ?s - 1)"
    by blast
  have run: "step\<^sup>*\<^sup>* s1 (s1\<lparr>try_depth := 5\<rparr>)"
    by (rule r_into_rtranclp) (rule driver_try_depth)
  from ctor have live: "try_finally_blocks (s1\<lparr>try_depth := 5\<rparr>) a \<noteq> None"
    by (auto simp: TryFinallyBlock_ctor_def Let_def split: sum.splits)
  from later [OF run live] ti0 ctor run show ?thesis
    by (auto simp: initial_state_def)
qed

section \<open>Records between construction and destruction\<close>

text \<open>
  What each constructor leaves in the store, and that the destructor of a record that is
  still alive returns the builder's pointer to the record's outer link.
\<close>

lemma sb_fixed_outer: "sb_fixed b' = sb_fixed b \<Longrightarrow> sb_outer b' = sb_outer b"
  by (drule arg_cong [where f = sb_outer]) (simp add: sb_fixed_def)

lemma bb_fixed_outer: "bb_fixed b' = bb_fixed b \<Longrightarrow> bb_outer b' = bb_outer b"
  by (drule arg_cong [where f = bb_outer]) (simp add: bb_fixed_def)

lemma SwitchBlock_ctor_new:
  assumes "SwitchBlock_ctor s n = Inr (a, s1)"
  shows "a = next_addr s \<and> next_addr s1 = Suc a \<and> switch_block s1 = Some a \<and>
         (\<exists>blk. switch_blocks s1 a = Some blk \<and> sb_outer blk = switch_block s)"
  using assms
  by (auto simp: SwitchBlock_ctor_def Let_def split: sum.splits if_splits)

lemma BreakableBlock_ctor_new:
  assumes "BreakableBlock_ctor s = Inr (a, s1)"
  shows "a = next_addr s \<and> next_addr s1 = Suc a \<and> breakable_block s1 = Some a \<and>
         (\<exists>blk. breakable_blocks s1 a = Some blk \<and> bb_outer blk = breakable_block s)"
  using assms
  by (auto simp: BreakableBlock_ctor_def Let_def split: sum.splits if_splits)

lemma TryFinallyBlock_ctor_new:
  assumes "TryFinallyBlock_ctor s off = Inr (a, s1)"
  shows "a = next_addr s \<and> next_addr s1 = Suc a \<and> try_finally_block s1 = Some a \<and>
         (\<exists>blk. try_finally_blocks s1 a = Some blk \<and> tf_outer blk = try_finally_block s)"
  using assms
  by (auto simp: TryFinallyBlock_ctor_def Let_def split: sum.splits if_splits)

lemma TryCatchBlock_ctor_new:
  assumes "TryCatchBlock_ctor s thi = (a, s1)"
  shows "a = next_addr s \<and> next_addr s1 = Suc a \<and> try_catch_block s1 = Some a \<and>
         (\<exists>blk. try_catch_blocks s1 a = Some blk \<and> tc_outer blk = try_catch_block s)"
  using assms
  by (auto simp: TryCatchBlock_ctor_def AllocateTryIndex_def Let_def split: if_splits)

lemma CatchBlock_ctor_new:
  assumes "CatchBlock_ctor s ev sv cti = (a, s1)"
  shows "a = next_addr s \<and> next_addr s1 = Suc a \<and> catch_block s1 = Some a \<and>
         (\<exists>blk. catch_blocks s1 a = Some blk \<and> cb_outer blk = catch_block s)"
  using assms
  by (auto simp: CatchBlock_ctor_def Let_def)

lemma SwitchBlock_push_pop:
  assumes ctor: "SwitchBlock_ctor s n = Inr (a, s1)"
  shows "switch_block s1 = Some a \<and>
         map_option sb_outer (switch_blocks s1 a) = Some (switch_block s) \<and>
         (\<forall>s2. step\<^sup>*\<^sup>* s1 s2 \<and> switch_blocks s2 a \<noteq> None \<longrightarrow>
            (\<exists>s3. SwitchBlock_dtor s2 a = Inr s3 \<and> switch_block s3 = switch_block s))"
    (is "?top \<and> ?link \<and> ?later")
proof -
  from SwitchBlock_ctor_new [OF ctor] obtain blk where
    new: "next_addr s1 = Suc a" "switch_block s1 = Some a"
      "switch_blocks s1 a = Some blk" "sb_outer blk = switch_block s"
    by blast
  have lt: "a < next_addr s1" using new(1) by simp
  have tail: "\<exists>s3. SwitchBlock_dtor s2 a = Inr s3 \<and> switch_block s3 = switch_block s"
    if run: "step\<^sup>*\<^sup>* s1 s2" and live: "switch_blocks s2 a \<noteq> None" for s2
  proof -
    from live obtain b2 where b2: "switch_blocks s2 a = Some b2" by blast
    have "map_option sb_fixed (switch_blocks s2 a) = map_option sb_fixed (switch_blocks s1 a)"
      using run lt live by (rule steps_switch_blocks)
    with b2 new(3) have "sb_fixed b2 = sb_fixed blk" by simp
    then have "sb_outer b2 = sb_outer blk" by (rule sb_fixed_outer)
    with b2 new(4) show ?thesis by (simp add: SwitchBlock_dtor_def deref_def)
  qed
  have top: ?top using new(2) .
  have link: ?link using new(3,4) by simp
  from tail have later: ?later by blast
  from top link later show ?thesis by (intro conjI)
qed

lemma BreakableBlock_push_pop:
  assumes ctor: "BreakableBlock_ctor s = Inr (a, s1)"
  shows "breakable_block s1 = Some a \<and>
         map_option bb_outer (breakable_blocks s1 a) = Some (breakable_block s) \<and>
         (\<forall>s2. step\<^sup>*\<^sup>* s1 s2 \<and> breakable_blocks s2 a \<noteq> None \<longrightarrow>
            (\<exists>s3. BreakableBlock_dtor s2 a = Inr s3 \<and> breakable_block s3 = breakable_block s))"
    (is "?top \<and> ?link \<and> ?later")
proof -
  from BreakableBlock_ctor_new [OF ctor] obtain blk where
    new: "next_addr s1 = Suc a" "breakable_block s1 = Some a"
      "breakable_blocks s1 a = Some blk" "bb_outer blk = breakable_block s"
    by blast
  have lt: "a < next_addr s1" using new(1) by simp
  have tail: "\<exists>s3. BreakableBlock_dtor s2 a = Inr s3 \<and> breakable_block s3 = breakable_block s"
    if run: "step\<^sup>*\<^sup>* s1 s2" and live: "breakable_blocks s2 a \<noteq> None" for s2
  proof -
    from live obtain b2 where b2: "breakable_blocks s2 a = Some b2" by blast
    have "map_option bb_fixed (breakable_blocks s2 a) = map_option bb_fixed (breakable_blocks s1 a)"
      using run lt live by (rule steps_breakable_blocks)
    with b2 new(3) have "bb_fixed b2 = bb_fixed blk" by simp
    then have "bb_outer b2 = bb_outer blk" by (rule bb_fixed_outer)
    with b2 new(4) show ?thesis by (simp add: BreakableBlock_dtor_def deref_def)
  qed
  have top: ?top using new(2) .
  have link: ?link using new(3,4) by simp
  from tail have later: ?later by blast
  from top link later show ?thesis by (intro conjI)
qed

lemma TryFinallyBlock_push_pop:
  assumes ctor: "TryFinallyBlock_ctor s off = Inr (a, s1)"
  shows "try_finally_block s1 = Some a \<and>
         map_option tf_outer (try_finally_blocks s1 a) = Some (try_finally_block s) \<and>
         (\<forall>s2. step\<^sup>*\<^sup>* s1 s2 \<and> try_finally_blocks s2 a \<noteq> None \<longrightarrow>
            (\<exists>s3. TryFinallyBlock_dtor s2 a = Inr s3 \<and> try_finally_block s3 = try_finally_block s))"
    (is "?top \<and> ?link \<and> ?later")
proof -
  from TryFinallyBlock_ctor_new [OF ctor] obtain blk where
    new: "next_addr s1 = Suc a" "try_finally_block s1 = Some a"
      "try_finally_blocks s1 a = Some blk" "tf_outer blk = try_finally_block s"
    by blast
  have lt: "a < next_addr s1" using new(1) by simp
  have tail: "\<exists>s3. TryFinallyBlock_dtor s2 a = Inr s3 \<and> try_finally_block s3 = try_finally_block s"
    if run: "step\<^sup>*\<^sup>* s1 s2" and live: "try_finally_blocks s2 a \<noteq> None" for s2
  proof -
    have "try_finally_blocks s2 a = try_finally_blocks s1 a"
      using run lt live by (rule steps_try_finally_blocks)
    with new(3,4) show ?thesis by (simp add: TryFinallyBlock_dtor_def deref_def)
  qed
  have top: ?top using new(2) .
  have link: ?link using new(3,4) by simp
  from tail have later: ?later by blast
  from top link later show ?thesis by (intro conjI)
qed

lemma TryCatchBlock_push_pop:
  assumes ctor: "TryCatchBlock_ctor s thi = (a, s1)"
  shows "try_catch_block s1 = Some a \<and>
         map_option tc_outer (try_catch_blocks s1 a) = Some (try_catch_block s) \<and>
         (\<forall>s2. step\<^sup>*\<^sup>* s1 s2 \<and> try_catch_blocks s2 a \<noteq> None \<longrightarrow>
            (\<exists>s3. TryCatchBlock_dtor s2 a = Inr s3 \<and> try_catch_block s3 = try_catch_block s))"
    (is "?top \<and> ?link \<and> ?later")
proof -
  from TryCatchBlock_ctor_new [OF ctor] obtain blk where
    new: "next_addr s1 = Suc a" "try_catch_block s1 = Some a"
      "try_catch_blocks s1 a = Some blk" "tc_outer blk = try_catch_block s"
    by blast
  have lt: "a < next_addr s1" using new(1) by simp
  have tail: "\<exists>s3. TryCatchBlock_dtor s2 a = Inr s3 \<and> try_catch_block s3 = try_catch_block s"
    if run: "step\<^sup>*\<^sup>* s1 s2" and live: "try_catch_blocks s2 a \<noteq> None" for s2
  proof -
    have "try_catch_blocks s2 a = try_catch_blocks s1 a"
      using run lt live by (rule steps_try_catch_blocks)
    with new(3,4) show ?thesis by (simp add: TryCatchBlock_dtor_def deref_def)
  qed
  have top: ?top using new(2) .
  have link: ?link using new(3,4) by simp
  from tail have later: ?later by blast
  from top link later show ?thesis by (intro conjI)
qed

lemma CatchBlock_push_pop:
  assumes ctor: "CatchBlock_ctor s ev sv cti = (a, s1)"
  shows "catch_block s1 = Some a \<and>
         map_option cb_outer (catch_blocks s1 a) = Some (catch_block s) \<and>
         (\<forall>s2. step\<^sup>*\<^sup>* s1 s2 \<and> catch_blocks s2 a \<noteq> None \<longrightarrow>
            (\<exists>s3. CatchBlock_dtor s2 a = Inr s3 \<and> catch_block s3 = catch_block s))"
    (is "?top \<and> ?link \<and> ?later")
proof -
  from CatchBlock_ctor_new [OF ctor] obtain blk where
    new: "next_addr s1 = Suc a" "catch_block s1 = Some a"
      "catch_blocks s1 a = Some blk" "cb_outer blk = catch_block s"
    by blast
  have lt: "a < next_addr s1" using new(1) by simp
  have tail: "\<exists>s3. CatchBlock_dtor s2 a = Inr s3 \<and> catch_block s3 = catch_block s"
    if run: "step\<^sup>*\<^sup>* s1 s2" and live: "catch_blocks s2 a \<noteq> None" for s2
  proof -
    have "catch_blocks s2 a = catch_blocks s1 a"
      using run lt live by (rule steps_catch_blocks)
    with new(3,4) show ?thesis by (simp add: CatchBlock_dtor_def deref_def)
  qed
  have top: ?top using new(2) .
  have link: ?link using new(3,4) by simp
  from tail have later: ?later by blast
  from top link later show ?thesis by (intro conjI)
qed

section \<open>The breakable chain\<close>

text \<open>
  The walk of \<open>BreakDestination\<close> on a well-formed chain, the effect of one resolution,
  and the invariant that every reachable state has a well-formed breakable chain.
\<close>

lemma chain_cong:
  "(\<And>x. map_option outer (h' x) = map_option outer (h x)) \<Longrightarrow>
     chain h' outer p as = chain h outer p as"
proof (induction as arbitrary: p)
  case Nil
  show ?case by simp
next
  case (Cons a as)
  from Cons.prems [of a] show ?case
    by (cases "h a"; cases "h' a") (auto simp: Cons.IH [OF Cons.prems])
qed

lemma chain_unique: "chain h outer p as \<Longrightarrow> chain h outer p bs \<Longrightarrow> as = bs"
proof (induction as arbitrary: p bs)
  case Nil
  then show ?case by (cases bs) auto
next
  case (Cons a as)
  then show ?case by (cases bs) (auto split: option.splits)
qed

lemma chain_live: "chain h outer p as \<Longrightarrow> a \<in> set as \<Longrightarrow> h a \<noteq> None"
  by (induction as arbitrary: p) (auto split: option.splits)

lemma chain_same_on:
  "(\<And>x. x \<in> set as \<Longrightarrow> h' x = h x) \<Longrightarrow> chain h' outer p as = chain h outer p as"
  by (induction as arbitrary: p) (auto split: option.splits)

lemma find_label_cong:
  "(\<And>x. map_option bb_index (h' x) = map_option bb_index (h x)) \<Longrightarrow>
     find_label h' as L = find_label h as L"
proof (induction as)
  case Nil
  show ?case by simp
next
  case (Cons a as)
  from Cons.prems [of a] show ?case
    by (cases "h a"; cases "h' a") (auto simp: Cons.IH [OF Cons.prems])
qed

lemma find_label_live: "find_label h as L = Some a \<Longrightarrow> \<exists>blk. h a = Some blk \<and> bb_index blk = L"
  by (induction as) (auto split: option.splits if_splits)

lemma BreakDestination_loop_chain:
  "chain h bb_outer p as \<Longrightarrow>
     BreakDestination_loop h p L =
       Some (case find_label h as L of None \<Rightarrow> Inl NullDereference | Some a \<Rightarrow> Inr (Some a))"
proof (induction as arbitrary: p)
  case Nil
  then show ?case
    by (subst BreakDestination_loop.simps) (simp add: deref_def)
next
  case (Cons a as)
  then obtain blk where p: "p = Some a" and blk: "h a = Some blk"
    and rest: "chain h bb_outer (bb_outer blk) as"
    by (auto split: option.splits)
  show ?case
  proof (cases "bb_index blk = L")
    case True
    with p blk show ?thesis
      by (subst BreakDestination_loop.simps) (simp add: deref_def)
  next
    case False
    with p blk Cons.IH [OF rest] show ?thesis
      by (subst BreakDestination_loop.simps) (simp add: deref_def)
  qed
qed

lemma BreakDestination_cached:
  assumes wf: "chain (breakable_blocks s) bb_outer (breakable_block s) as"
    and live: "breakable_blocks s this \<noteq> None"
    and target: "find_label (breakable_blocks s) as L = Some a"
    and blk: "breakable_blocks s a = Some blk"
    and cached: "bb_destination blk = Some j"
  shows "BreakDestination s this L =
           Some (Inr (j, bb_outer_finally blk, bb_context_depth blk, s))"
proof -
  from live obtain tb where tb: "breakable_blocks s this = Some tb" by blast
  have loop: "BreakDestination_loop (breakable_blocks s) (breakable_block s) L =
                Some (Inr (Some a))"
    using BreakDestination_loop_chain [OF wf, of L] target by simp
  show ?thesis
    using tb loop blk cached
    by (simp add: BreakDestination_def BreakableBlock_EnsureDestination_def deref_def)
qed

lemma BreakDestination_fresh:
  assumes wf: "chain (breakable_blocks s) bb_outer (breakable_block s) as"
    and live: "breakable_blocks s this \<noteq> None"
    and target: "find_label (breakable_blocks s) as L = Some a"
    and blk: "breakable_blocks s a = Some blk"
    and fresh: "bb_destination blk = None"
  shows "BreakDestination s this L =
           Some (Inr (length (join_entries s), bb_outer_finally blk, bb_context_depth blk,
                      s\<lparr>join_entries := join_entries s @ [bb_try_index blk],
                        breakable_blocks := (breakable_blocks s)
                          (a \<mapsto> blk\<lparr>bb_destination := Some (length (join_entries s))\<rparr>)\<rparr>))"
proof -
  from live obtain tb where tb: "breakable_blocks s this = Some tb" by blast
  have loop: "BreakDestination_loop (breakable_blocks s) (breakable_block s) L =
                Some (Inr (Some a))"
    using BreakDestination_loop_chain [OF wf, of L] target by simp
  show ?thesis
    using tb loop blk fresh
    by (simp add: BreakDestination_def BreakableBlock_EnsureDestination_def deref_def
          BuildJoinEntry_def)
qed

lemma BreakDestinations_cached:
  assumes wf: "chain (breakable_blocks s) bb_outer (breakable_block s) as"
    and live: "breakable_blocks s this \<noteq> None"
    and target: "find_label (breakable_blocks s) as L = Some a"
    and blk: "breakable_blocks s a = Some blk"
    and cached: "bb_destination blk = Some j"
  shows "BreakDestinations s this L n = Some (Inr (replicate n j, s))"
proof (induction n)
  case 0
  show ?case by simp
next
  case (Suc n)
  with BreakDestination_cached [OF wf live target blk cached] show ?case by simp
qed

lemma BreakDestination_keeps_chain:
  fixes j :: addr
  assumes blk: "breakable_blocks s a = Some blk"
  defines "s1 \<equiv> s\<lparr>join_entries := join_entries s @ [bb_try_index blk],
                   breakable_blocks := (breakable_blocks s)(a \<mapsto> blk\<lparr>bb_destination := Some j\<rparr>)\<rparr>"
  shows "chain (breakable_blocks s1) bb_outer (breakable_block s1) as =
           chain (breakable_blocks s) bb_outer (breakable_block s) as"
    and "find_label (breakable_blocks s1) as L = find_label (breakable_blocks s) as L"
    and "breakable_blocks s this \<noteq> None \<Longrightarrow> breakable_blocks s1 this \<noteq> None"
proof -
  have outer: "map_option bb_outer (breakable_blocks s1 x) =
               map_option bb_outer (breakable_blocks s x)" for x
    using blk by (simp add: s1_def)
  have index: "map_option bb_index (breakable_blocks s1 x) =
               map_option bb_index (breakable_blocks s x)" for x
    using blk by (simp add: s1_def)
  have top: "breakable_block s1 = breakable_block s" by (simp add: s1_def)
  show "chain (breakable_blocks s1) bb_outer (breakable_block s1) as =
          chain (breakable_blocks s) bb_outer (breakable_block s) as"
    unfolding top by (rule chain_cong) (rule outer)
  show "find_label (breakable_blocks s1) as L = find_label (breakable_blocks s) as L"
    by (rule find_label_cong) (rule index)
  show "breakable_blocks s this \<noteq> None \<Longrightarrow> breakable_blocks s1 this \<noteq> None"
    by (simp add: s1_def)
qed

lemma BreakDestination_no_label:
  assumes wf: "chain (breakable_blocks s) bb_outer (breakable_block s) as"
    and live: "breakable_blocks s this \<noteq> None"
    and missing: "find_label (breakable_blocks s) as L = None"
  shows "BreakDestination s this L = Some (Inl NullDereference)"
proof -
  from live obtain tb where tb: "breakable_blocks s this = Some tb" by blast
  have "BreakDestination_loop (breakable_blocks s) (breakable_block s) L =
          Some (Inl NullDereference)"
    using BreakDestination_loop_chain [OF wf, of L] missing by simp
  with tb show ?thesis by (simp add: BreakDestination_def deref_def)
qed

lemma BreakDestination_loop_result:
  assumes "BreakDestination_loop h p L = Some r"
  shows "r \<noteq> Inr None \<and> r \<noteq> Inl AssertionFailure"
  using assms
  by (rule BreakDestination_loop.raw_induct
        [where P = "\<lambda>h p L r. r \<noteq> Inr None \<and> r \<noteq> Inl AssertionFailure", rotated])
     (auto simp: deref_def split: option.splits sum.splits if_splits)

lemma BreakDestination_never_asserts:
  "BreakDestination s this L \<noteq> Some (Inl AssertionFailure)"
proof
  assume a: "BreakDestination s this L = Some (Inl AssertionFailure)"
  show False
  proof (cases "BreakDestination_loop (breakable_blocks s) (breakable_block s) L")
    case None
    with a show False
      by (auto simp: BreakDestination_def deref_def split: option.splits sum.splits)
  next
    case (Some r)
    then have "r \<noteq> Inr None \<and> r \<noteq> Inl AssertionFailure" by (rule BreakDestination_loop_result)
    with a Some show False
      by (auto simp: BreakDestination_def BreakableBlock_EnsureDestination_def deref_def
            BuildJoinEntry_def split: option.splits sum.splits if_splits prod.splits)
  qed
qed

lemma labels_ok_same_on:
  "(\<And>x. x \<in> set as \<Longrightarrow> map_option bb_index (h' x) = map_option bb_index (h x)) \<Longrightarrow>
     labels_ok h' as = labels_ok h as"
  by (induction as) auto

lemma step_breakable_cases:
  assumes "step s s'"
  shows "(\<exists>a. BreakableBlock_ctor s = Inr (a, s')) \<or>
         (\<exists>a. breakable_block s = Some a \<and> BreakableBlock_dtor s a = Inr s') \<or>
         breakable_frame s s' \<or>
         (breakable_blocks s' = breakable_blocks s \<and> breakable_block s' = breakable_block s \<and>
          next_addr s \<le> next_addr s')"
  using assms
proof (induction rule: step.induct)
  case (enter_breakable s a s')
  then show ?case by blast
next
  case (leave_breakable s a s')
  then show ?case by blast
next
  case (resolve_break s this label_index j f d s')
  from BreakDestination_frame [OF this] show ?case by simp
next
  case (resolve_case s this target_index fp dp j f d s')
  from Destination_frame [OF this] show ?case
    by (auto simp: switch_frame_def dest: arg_cong [where f = breakable_blocks]
          arg_cong [where f = breakable_block] arg_cong [where f = next_addr])
next
  case (resolve_case_direct s this case_no fp dp j f d s')
  from DestinationDirect_frame [OF this] show ?case
    by (auto simp: switch_frame_def dest: arg_cong [where f = breakable_blocks]
          arg_cong [where f = breakable_block] arg_cong [where f = next_addr])
qed (auto simp: ctor_dtor_defs Let_def split: sum.splits if_splits prod.splits)

lemma breakable_inv_ctor:
  assumes inv: "breakable_inv s as" and ctor: "BreakableBlock_ctor s = Inr (a, s')"
  shows "breakable_inv s' (a # as)"
proof -
  from inv have wf: "chain (breakable_blocks s) bb_outer (breakable_block s) as"
    and dist: "distinct as"
    and bound: "\<And>x. breakable_blocks s x \<noteq> None \<Longrightarrow> x < next_addr s"
    and labels: "labels_ok (breakable_blocks s) as"
    by (auto simp: breakable_inv_def)
  from ctor obtain blk where
    a: "a = next_addr s" and next': "next_addr s' = Suc a" and top': "breakable_block s' = Some a"
    and heap': "breakable_blocks s' = (breakable_blocks s)(a \<mapsto> blk)"
    and outer: "bb_outer blk = breakable_block s"
    and index: "bb_index blk =
          (case breakable_block s of
             None \<Rightarrow> 0
           | Some p \<Rightarrow> (case breakable_blocks s p of
                          None \<Rightarrow> 0
                        | Some ob \<Rightarrow> bb_index ob + 1))"
    by (auto simp: BreakableBlock_ctor_def Let_def deref_def
             split: sum.splits if_splits option.splits)
  have fresh: "a \<notin> set as"
  proof
    assume "a \<in> set as"
    with wf have "breakable_blocks s a \<noteq> None" by (rule chain_live)
    then have "a < next_addr s" by (rule bound)
    with a show False by simp
  qed
  have same: "breakable_blocks s' x = breakable_blocks s x" if "x \<in> set as" for x
    using that fresh heap' by auto
  have "chain (breakable_blocks s') bb_outer (breakable_block s) as =
        chain (breakable_blocks s) bb_outer (breakable_block s) as"
    by (rule chain_same_on) (rule same)
  with wf have wf': "chain (breakable_blocks s') bb_outer (breakable_block s) as" by simp
  have bound': "x < next_addr s'" if "breakable_blocks s' x \<noteq> None" for x
  proof (cases "x = a")
    case True
    with next' show ?thesis by simp
  next
    case False
    with that heap' have "breakable_blocks s x \<noteq> None" by simp
    then have "x < next_addr s" by (rule bound)
    with a next' show ?thesis by simp
  qed
  have "labels_ok (breakable_blocks s') as = labels_ok (breakable_blocks s) as"
    by (rule labels_ok_same_on) (simp add: same)
  with labels have labels': "labels_ok (breakable_blocks s') as" by simp
  have ix: "bb_index blk = of_nat (length as)"
  proof (cases as)
    case Nil
    with wf index show ?thesis by simp
  next
    case (Cons p ps)
    with wf obtain ob where p: "breakable_block s = Some p"
      and ob: "breakable_blocks s p = Some ob"
      by (auto split: option.splits)
    from labels Cons ob have "bb_index ob = of_nat (length ps)" by simp
    with index p ob Cons show ?thesis by simp
  qed
  show ?thesis
    using wf' top' heap' outer dist fresh bound' labels' ix
    by (auto simp: breakable_inv_def)
qed

lemma breakable_inv_dtor:
  assumes inv: "breakable_inv s as" and top: "breakable_block s = Some a"
    and dtor: "BreakableBlock_dtor s a = Inr s'"
  shows "breakable_inv s' (tl as)"
proof -
  from inv have wf: "chain (breakable_blocks s) bb_outer (breakable_block s) as"
    and dist: "distinct as"
    and bound: "\<And>x. breakable_blocks s x \<noteq> None \<Longrightarrow> x < next_addr s"
    and labels: "labels_ok (breakable_blocks s) as"
    by (auto simp: breakable_inv_def)
  from wf top obtain ps blk where as: "as = a # ps" and blk: "breakable_blocks s a = Some blk"
    and rest: "chain (breakable_blocks s) bb_outer (bb_outer blk) ps"
    by (cases as) (auto split: option.splits)
  from dtor blk have s': "s' = s\<lparr>breakable_block := bb_outer blk,
                                  breakable_blocks := (breakable_blocks s)(a := None)\<rparr>"
    by (simp add: BreakableBlock_dtor_def deref_def)
  from dist as have fresh: "a \<notin> set ps" and dist': "distinct ps" by simp_all
  have same: "breakable_blocks s' x = breakable_blocks s x" if "x \<in> set ps" for x
    using that fresh s' by auto
  have "chain (breakable_blocks s') bb_outer (bb_outer blk) ps =
        chain (breakable_blocks s) bb_outer (bb_outer blk) ps"
    by (rule chain_same_on) (rule same)
  with rest have wf': "chain (breakable_blocks s') bb_outer (bb_outer blk) ps" by simp
  have bound': "x < next_addr s'" if "breakable_blocks s' x \<noteq> None" for x
  proof -
    from that s' have "breakable_blocks s x \<noteq> None" by (auto split: if_splits)
    then have "x < next_addr s" by (rule bound)
    with s' show ?thesis by simp
  qed
  have "labels_ok (breakable_blocks s') ps = labels_ok (breakable_blocks s) ps"
    by (rule labels_ok_same_on) (simp add: same)
  with labels as have labels': "labels_ok (breakable_blocks s') ps" by simp
  show ?thesis
    using wf' dist' bound' labels' as s' by (auto simp: breakable_inv_def)
qed

lemma bb_fixed_fields:
  assumes "map_option bb_fixed (h' x) = map_option bb_fixed (h x)"
  shows "map_option bb_outer (h' x) = map_option bb_outer (h x)"
    and "h' x = None \<longleftrightarrow> h x = None"
    and "map_option bb_index (h' x) = map_option bb_index (h x)"
proof -
  have ix: "bb_index b' = bb_index b" if "bb_fixed b' = bb_fixed b" for b b'
    using arg_cong [OF that, where f = bb_index] by (simp add: bb_fixed_def)
  show "map_option bb_index (h' x) = map_option bb_index (h x)"
    using assms by (cases "h x"; cases "h' x") (auto intro: ix)
  show "map_option bb_outer (h' x) = map_option bb_outer (h x)"
    using assms by (cases "h x"; cases "h' x") (auto intro: bb_fixed_outer)
  show "h' x = None \<longleftrightarrow> h x = None"
    using assms by (cases "h x"; cases "h' x") auto
qed

lemma breakable_inv_frame:
  assumes inv: "breakable_inv s as" and frame: "breakable_frame s s'"
  shows "breakable_inv s' as"
proof -
  from frame have
    s': "s' = s\<lparr>breakable_blocks := breakable_blocks s', join_entries := join_entries s'\<rparr>"
    and fixed: "\<And>x. map_option bb_fixed (breakable_blocks s' x) =
                     map_option bb_fixed (breakable_blocks s x)"
    by (auto simp: breakable_frame_def)
  from s' have top: "breakable_block s' = breakable_block s"
    by (auto dest: arg_cong [where f = breakable_block])
  from s' have nxt: "next_addr s' = next_addr s"
    by (auto dest: arg_cong [where f = next_addr])
  from inv have wf: "chain (breakable_blocks s) bb_outer (breakable_block s) as"
    and dist: "distinct as"
    and bound: "\<And>x. breakable_blocks s x \<noteq> None \<Longrightarrow> x < next_addr s"
    and labels: "labels_ok (breakable_blocks s) as"
    by (auto simp: breakable_inv_def)
  note ff = bb_fixed_fields [where h' = "breakable_blocks s'" and h = "breakable_blocks s"]
  have outer_eq: "map_option bb_outer (breakable_blocks s' x) =
                  map_option bb_outer (breakable_blocks s x)"
    for x using fixed [of x] by (rule ff(1))
  have live_eq: "breakable_blocks s' x = None \<longleftrightarrow> breakable_blocks s x = None"
    for x using fixed [of x] by (rule ff(2))
  have "chain (breakable_blocks s') bb_outer (breakable_block s) as =
        chain (breakable_blocks s) bb_outer (breakable_block s) as"
    by (rule chain_cong) (rule outer_eq)
  with wf top have wf': "chain (breakable_blocks s') bb_outer (breakable_block s') as" by simp
  have bound': "x < next_addr s'" if "breakable_blocks s' x \<noteq> None" for x
    using that live_eq [of x] bound [of x] nxt by simp
  have index_eq: "map_option bb_index (breakable_blocks s' x) =
                  map_option bb_index (breakable_blocks s x)"
    for x using fixed [of x] by (rule ff(3))
  have "labels_ok (breakable_blocks s') as = labels_ok (breakable_blocks s) as"
    by (rule labels_ok_same_on) (rule index_eq)
  with labels have labels': "labels_ok (breakable_blocks s') as" by simp
  show ?thesis
    using wf' dist bound' labels' by (auto simp: breakable_inv_def)
qed

lemma breakable_inv_other:
  assumes inv: "breakable_inv s as"
    and same: "breakable_blocks s' = breakable_blocks s" "breakable_block s' = breakable_block s"
      "next_addr s \<le> next_addr s'"
  shows "breakable_inv s' as"
  using inv same by (fastforce simp: breakable_inv_def)

lemma step_breakable_inv:
  assumes "step s s'" and "breakable_inv s as"
  shows "\<exists>as'. breakable_inv s' as'"
  using step_breakable_cases [OF assms(1)] assms(2)
  by (blast intro: breakable_inv_ctor breakable_inv_dtor breakable_inv_frame breakable_inv_other)

lemma reachable_breakable_inv: "reachable s \<Longrightarrow> \<exists>as. breakable_inv s as"
proof (induction rule: reachable.induct)
  case start
  have "breakable_inv initial_state []"
    by (simp add: breakable_inv_def initial_state_def)
  then show ?case ..
next
  case (after s s')
  then show ?case by (blast dest: step_breakable_inv)
qed

lemma label_distinct:
  fixes k n :: nat
  assumes "k < n" and "n < 2 ^ 64"
  shows "(of_nat k :: intptr_t) \<noteq> of_nat n"
proof
  assume "(of_nat k :: intptr_t) = of_nat n"
  then have "unat (of_nat k :: intptr_t) = unat (of_nat n :: intptr_t)" by simp
  with assms show False by (simp add: unat_of_nat)
qed

lemma labels_ok_bound:
  "labels_ok h as \<Longrightarrow> a \<in> set as \<Longrightarrow> h a = Some blk \<Longrightarrow>
     \<exists>k < length as. bb_index blk = of_nat k"
proof (induction as)
  case Nil
  then show ?case by simp
next
  case (Cons x xs)
  show ?case
  proof (cases "a = x")
    case True
    with Cons.prems show ?thesis by auto
  next
    case False
    with Cons obtain k where k: "k < length xs" "bb_index blk = of_nat k" by auto
    from k(1) have "k < length (x # xs)" by simp
    with k(2) show ?thesis by blast
  qed
qed

lemma find_label_own:
  "labels_ok h as \<Longrightarrow> length as \<le> 2 ^ 64 \<Longrightarrow> a \<in> set as \<Longrightarrow> h a = Some blk \<Longrightarrow>
     find_label h as (bb_index blk) = Some a"
proof (induction as)
  case Nil
  then show ?case by simp
next
  case (Cons x xs)
  from Cons.prems(1) obtain bx where bx: "h x = Some bx" and ix: "bb_index bx = of_nat (length xs)"
    and rest: "labels_ok h xs"
    by auto
  show ?case
  proof (cases "a = x")
    case True
    with Cons.prems bx show ?thesis by simp
  next
    case False
    with Cons.prems have mem: "a \<in> set xs" by simp
    from labels_ok_bound [OF rest mem Cons.prems(4)] obtain k where
      k: "k < length xs" "bb_index blk = of_nat k" by blast
    from Cons.prems(2) have "length xs < 2 ^ 64" by simp
    with k(1) have "(of_nat k :: intptr_t) \<noteq> of_nat (length xs)" by (rule label_distinct)
    with k ix have "bb_index bx \<noteq> bb_index blk" by simp
    moreover from Cons.prems(2) have "length xs \<le> 2 ^ 64" by simp
    with rest have "find_label h xs (bb_index blk) = Some a"
      using mem Cons.prems(4) by (rule Cons.IH)
    ultimately show ?thesis using bx by simp
  qed
qed

lemma find_label_None_iff:
  "chain h bb_outer p as \<Longrightarrow>
     find_label h as L = None \<longleftrightarrow> (\<forall>a \<in> set as. \<forall>blk. h a = Some blk \<longrightarrow> bb_index blk \<noteq> L)"
  by (induction as arbitrary: p) (auto split: option.splits)

lemma reachable_own_label:
  assumes reach: "reachable s"
    and wf: "chain (breakable_blocks s) bb_outer (breakable_block s) as"
    and len: "length as \<le> 2 ^ 64"
    and mem: "a \<in> set as" and blk: "breakable_blocks s a = Some blk"
  shows "find_label (breakable_blocks s) as (bb_index blk) = Some a"
proof -
  from reachable_breakable_inv [OF reach] obtain bs where inv: "breakable_inv s bs" ..
  then have "chain (breakable_blocks s) bb_outer (breakable_block s) bs"
    by (simp add: breakable_inv_def)
  with wf have "as = bs" by (rule chain_unique)
  with inv have "labels_ok (breakable_blocks s) as" by (simp add: breakable_inv_def)
  then show ?thesis using len mem blk by (rule find_label_own)
qed

lemma BreakableBlock_EnsureDestination_keeps_cached:
  assumes "BreakableBlock_EnsureDestination s p = Inr (j', s')"
    and "breakable_blocks s a = Some b" and "bb_destination b = Some j"
  shows "breakable_blocks s' a = Some b"
  using assms
  by (auto simp: BreakableBlock_EnsureDestination_def BuildJoinEntry_def deref_def
           split: sum.splits option.splits if_splits)

lemma BreakDestination_keeps_cached:
  assumes "BreakDestination s this L = Some (Inr (j', f, d, s'))"
    and "breakable_blocks s a = Some b" and "bb_destination b = Some j"
  shows "breakable_blocks s' a = Some b"
  using assms
  by (auto simp: BreakDestination_def split: option.splits sum.splits if_splits
           dest: BreakableBlock_EnsureDestination_keeps_cached)

lemma step_keeps_cached:
  "step s s' \<Longrightarrow> a < next_addr s \<Longrightarrow> breakable_blocks s a = Some b \<Longrightarrow>
     bb_destination b = Some j \<Longrightarrow> breakable_blocks s' a \<noteq> None \<Longrightarrow>
     breakable_blocks s' a = Some b"
proof (induction rule: step.induct)
  case (resolve_break s this label_index j' f d s')
  from resolve_break(1,3,4) show ?case by (rule BreakDestination_keeps_cached)
next
  case (resolve_case s this target_index fp dp j' f d s')
  from Destination_frame [OF this(1)] this(3) show ?case
    by (auto simp: switch_frame_def dest: arg_cong [where f = breakable_blocks])
next
  case (resolve_case_direct s this case_no fp dp j' f d s')
  from DestinationDirect_frame [OF this(1)] this(3) show ?case
    by (auto simp: switch_frame_def dest: arg_cong [where f = breakable_blocks])
qed (auto simp: ctor_dtor_defs Let_def split: sum.splits if_splits prod.splits)

lemma steps_keeps_cached:
  "step\<^sup>*\<^sup>* s s' \<Longrightarrow> a < next_addr s \<Longrightarrow> breakable_blocks s a = Some b \<Longrightarrow>
     bb_destination b = Some j \<Longrightarrow> breakable_blocks s' a \<noteq> None \<Longrightarrow>
     breakable_blocks s' a = Some b"
proof (induction rule: rtranclp_induct)
  case base
  then show ?case by simp
next
  case (step y z)
  from step.hyps(1) have "next_addr s \<le> next_addr y" by (rule steps_next_addr)
  with step.prems(1) have lt: "a < next_addr y" by simp
  have live_y: "breakable_blocks y a \<noteq> None"
  proof
    assume dead: "breakable_blocks y a = None"
    have "map_option bb_fixed (breakable_blocks z a) = map_option bb_fixed (breakable_blocks y a)"
      using step.hyps(2) lt step.prems(4) by (rule step_breakable_blocks)
    with dead step.prems(4) show False by simp
  qed
  with step.IH step.prems have "breakable_blocks y a = Some b" by simp
  with step.hyps(2) lt show ?case using step.prems(3,4) by (rule step_keeps_cached)
qed

section \<open>The switch chain\<close>

text \<open>
  The invariant that every reachable state has a well-formed switch chain with the right
  depth offsets, and the walk of \<open>Destination\<close> unfolded one block at a time.
\<close>

lemma enclosing_case_count_same_on:
  "(\<And>x. x \<in> set as \<Longrightarrow> map_option sb_case_count (h' x) = map_option sb_case_count (h x)) \<Longrightarrow>
     enclosing_case_count h' as = enclosing_case_count h as"
proof (induction as)
  case Nil
  show ?case by simp
next
  case (Cons a as)
  have "map_option sb_case_count (h' a) = map_option sb_case_count (h a)"
    by (rule Cons.prems) simp
  then have "(case h' a of None \<Rightarrow> 0 | Some blk \<Rightarrow> sb_case_count blk) =
             (case h a of None \<Rightarrow> 0 | Some blk \<Rightarrow> sb_case_count blk)"
    by (cases "h a"; cases "h' a") auto
  moreover have "enclosing_case_count h' as = enclosing_case_count h as"
    by (rule Cons.IH) (simp add: Cons.prems)
  ultimately show ?case by simp
qed

lemma depths_ok_same_on:
  assumes "\<And>x. x \<in> set as \<Longrightarrow> map_option sb_case_count (h' x) = map_option sb_case_count (h x)"
    and "\<And>x. x \<in> set as \<Longrightarrow> map_option sb_depth (h' x) = map_option sb_depth (h x)"
  shows "depths_ok h' as = depths_ok h as"
  using assms
proof (induction as)
  case Nil
  show ?case by simp
next
  case (Cons a as)
  have "enclosing_case_count h' as = enclosing_case_count h as"
    by (rule enclosing_case_count_same_on) (simp add: Cons.prems)
  moreover have "map_option sb_depth (h' a) = map_option sb_depth (h a)"
    by (rule Cons.prems) simp
  moreover have "depths_ok h' as = depths_ok h as"
    by (rule Cons.IH) (simp_all add: Cons.prems)
  ultimately show ?case by simp
qed

lemma sb_fixed_fields:
  assumes "map_option sb_fixed (h' x) = map_option sb_fixed (h x)"
  shows "map_option sb_outer (h' x) = map_option sb_outer (h x)"
    and "map_option sb_case_count (h' x) = map_option sb_case_count (h x)"
    and "map_option sb_depth (h' x) = map_option sb_depth (h x)"
    and "map_option sb_outer_finally (h' x) = map_option sb_outer_finally (h x)"
    and "map_option sb_context_depth (h' x) = map_option sb_context_depth (h x)"
    and "map_option sb_try_index (h' x) = map_option sb_try_index (h x)"
    and "h' x = None \<longleftrightarrow> h x = None"
proof -
  have sel: "f b' = f b" if "sb_fixed b' = sb_fixed b" and "\<And>c. f (sb_fixed c) = f c"
    for f :: "SwitchBlock \<Rightarrow> 'b" and b b'
    using that by metis
  show "map_option sb_outer (h' x) = map_option sb_outer (h x)"
    using assms by (cases "h x"; cases "h' x") (auto intro: sel simp: sb_fixed_def)
  show "map_option sb_case_count (h' x) = map_option sb_case_count (h x)"
    using assms by (cases "h x"; cases "h' x") (auto intro: sel simp: sb_fixed_def)
  show "map_option sb_depth (h' x) = map_option sb_depth (h x)"
    using assms by (cases "h x"; cases "h' x") (auto intro: sel simp: sb_fixed_def)
  show "map_option sb_outer_finally (h' x) = map_option sb_outer_finally (h x)"
    using assms by (cases "h x"; cases "h' x") (auto intro: sel simp: sb_fixed_def)
  show "map_option sb_context_depth (h' x) = map_option sb_context_depth (h x)"
    using assms by (cases "h x"; cases "h' x") (auto intro: sel simp: sb_fixed_def)
  show "map_option sb_try_index (h' x) = map_option sb_try_index (h x)"
    using assms by (cases "h x"; cases "h' x") (auto intro: sel simp: sb_fixed_def)
  show "h' x = None \<longleftrightarrow> h x = None"
    using assms by (cases "h x"; cases "h' x") auto
qed

lemma step_switch_cases:
  assumes "step s s'"
  shows "(\<exists>n a. SwitchBlock_ctor s n = Inr (a, s')) \<or>
         (\<exists>a. switch_block s = Some a \<and> SwitchBlock_dtor s a = Inr s') \<or>
         switch_frame s s' \<or>
         (switch_blocks s' = switch_blocks s \<and> switch_block s' = switch_block s \<and>
          next_addr s \<le> next_addr s')"
  using assms
proof (induction rule: step.induct)
  case (enter_switch s case_count a s')
  then show ?case by blast
next
  case (leave_switch s a s')
  then show ?case by blast
next
  case (resolve_break s this label_index j f d s')
  from BreakDestination_frame [OF this] show ?case
    by (auto simp: breakable_frame_def dest: arg_cong [where f = switch_blocks]
          arg_cong [where f = switch_block] arg_cong [where f = next_addr])
next
  case (resolve_case s this target_index fp dp j f d s')
  from Destination_frame [OF this] show ?case by simp
next
  case (resolve_case_direct s this case_no fp dp j f d s')
  from DestinationDirect_frame [OF this] show ?case by simp
qed (auto simp: ctor_dtor_defs Let_def split: sum.splits if_splits prod.splits)

lemma switch_inv_ctor:
  assumes inv: "switch_inv s as" and ctor: "SwitchBlock_ctor s n = Inr (a, s')"
  shows "switch_inv s' (a # as)"
proof -
  from inv have wf: "chain (switch_blocks s) sb_outer (switch_block s) as"
    and dist: "distinct as"
    and bound: "\<And>x. switch_blocks s x \<noteq> None \<Longrightarrow> x < next_addr s"
    and depths: "depths_ok (switch_blocks s) as"
    by (auto simp: switch_inv_def)
  from ctor obtain blk where
    a: "a = next_addr s" and next': "next_addr s' = Suc a" and top': "switch_block s' = Some a"
    and heap': "switch_blocks s' = (switch_blocks s)(a \<mapsto> blk)"
    and outer: "sb_outer blk = switch_block s"
    and depth: "sb_depth blk =
          (case switch_block s of
             None \<Rightarrow> 0
           | Some p \<Rightarrow> (case switch_blocks s p of
                          None \<Rightarrow> 0
                        | Some ob \<Rightarrow> sb_depth ob + sb_case_count ob))"
    by (auto simp: SwitchBlock_ctor_def Let_def deref_def
             split: sum.splits if_splits option.splits)
  have fresh: "a \<notin> set as"
  proof
    assume "a \<in> set as"
    with wf have "switch_blocks s a \<noteq> None" by (rule chain_live)
    then have "a < next_addr s" by (rule bound)
    with a show False by simp
  qed
  have same: "switch_blocks s' x = switch_blocks s x" if "x \<in> set as" for x
    using that fresh heap' by auto
  have wf': "chain (switch_blocks s') sb_outer (switch_block s) as"
    using wf chain_same_on [of as "switch_blocks s'" "switch_blocks s" sb_outer "switch_block s"] same
    by simp
  have depths': "depths_ok (switch_blocks s') as"
    using depths depths_ok_same_on [of as "switch_blocks s'" "switch_blocks s"] same by simp
  have ecc': "enclosing_case_count (switch_blocks s') as = enclosing_case_count (switch_blocks s) as"
    using enclosing_case_count_same_on [of as "switch_blocks s'" "switch_blocks s"] same by simp
  have "sb_depth blk = enclosing_case_count (switch_blocks s) as"
  proof (cases as)
    case Nil
    with wf depth show ?thesis by simp
  next
    case (Cons p ps)
    with wf obtain ob where p: "switch_block s = Some p" and ob: "switch_blocks s p = Some ob"
      by (auto split: option.splits)
    from depths Cons ob have "sb_depth ob = enclosing_case_count (switch_blocks s) ps" by simp
    with depth p ob Cons show ?thesis by (simp add: add.commute)
  qed
  with ecc' have d: "sb_depth blk = enclosing_case_count (switch_blocks s') as" by simp
  have bound': "x < next_addr s'" if "switch_blocks s' x \<noteq> None" for x
  proof (cases "x = a")
    case True
    with next' show ?thesis by simp
  next
    case False
    with that heap' have "switch_blocks s x \<noteq> None" by simp
    then have "x < next_addr s" by (rule bound)
    with a next' show ?thesis by simp
  qed
  show ?thesis
    using wf' top' heap' outer dist fresh depths' d bound'
    by (auto simp: switch_inv_def)
qed

lemma switch_inv_dtor:
  assumes inv: "switch_inv s as" and top: "switch_block s = Some a"
    and dtor: "SwitchBlock_dtor s a = Inr s'"
  shows "switch_inv s' (tl as)"
proof -
  from inv have wf: "chain (switch_blocks s) sb_outer (switch_block s) as"
    and dist: "distinct as"
    and bound: "\<And>x. switch_blocks s x \<noteq> None \<Longrightarrow> x < next_addr s"
    and depths: "depths_ok (switch_blocks s) as"
    by (auto simp: switch_inv_def)
  from wf top obtain ps blk where as: "as = a # ps" and blk: "switch_blocks s a = Some blk"
    and rest: "chain (switch_blocks s) sb_outer (sb_outer blk) ps"
    by (cases as) (auto split: option.splits)
  from dtor blk have s': "s' = s\<lparr>switch_block := sb_outer blk,
                                  switch_blocks := (switch_blocks s)(a := None)\<rparr>"
    by (simp add: SwitchBlock_dtor_def deref_def)
  from dist as have fresh: "a \<notin> set ps" and dist': "distinct ps" by simp_all
  have same: "switch_blocks s' x = switch_blocks s x" if "x \<in> set ps" for x
    using that fresh s' by auto
  have wf': "chain (switch_blocks s') sb_outer (sb_outer blk) ps"
    using rest chain_same_on [of ps "switch_blocks s'" "switch_blocks s" sb_outer "sb_outer blk"] same
    by simp
  have depths': "depths_ok (switch_blocks s') ps"
    using depths as depths_ok_same_on [of ps "switch_blocks s'" "switch_blocks s"] same by simp
  have bound': "x < next_addr s'" if "switch_blocks s' x \<noteq> None" for x
  proof -
    from that s' have "switch_blocks s x \<noteq> None" by (auto split: if_splits)
    then have "x < next_addr s" by (rule bound)
    with s' show ?thesis by simp
  qed
  show ?thesis
    using wf' dist' depths' bound' as s' by (auto simp: switch_inv_def)
qed

lemma switch_inv_frame:
  assumes inv: "switch_inv s as" and frame: "switch_frame s s'"
  shows "switch_inv s' as"
proof -
  from frame have s': "s' = s\<lparr>switch_blocks := switch_blocks s', join_entries := join_entries s'\<rparr>"
    and fixed: "\<And>x. map_option sb_fixed (switch_blocks s' x) = map_option sb_fixed (switch_blocks s x)"
    by (auto simp: switch_frame_def)
  from s' have top: "switch_block s' = switch_block s"
    by (auto dest: arg_cong [where f = switch_block])
  from s' have nxt: "next_addr s' = next_addr s"
    by (auto dest: arg_cong [where f = next_addr])
  from inv have wf: "chain (switch_blocks s) sb_outer (switch_block s) as"
    and dist: "distinct as"
    and bound: "\<And>x. switch_blocks s x \<noteq> None \<Longrightarrow> x < next_addr s"
    and depths: "depths_ok (switch_blocks s) as"
    by (auto simp: switch_inv_def)
  note ff = sb_fixed_fields [where h' = "switch_blocks s'" and h = "switch_blocks s"]
  have outer_eq: "map_option sb_outer (switch_blocks s' x) = map_option sb_outer (switch_blocks s x)"
    for x using fixed [of x] by (rule ff(1))
  have count_eq: "map_option sb_case_count (switch_blocks s' x) =
                  map_option sb_case_count (switch_blocks s x)"
    for x using fixed [of x] by (rule ff(2))
  have depth_eq: "map_option sb_depth (switch_blocks s' x) = map_option sb_depth (switch_blocks s x)"
    for x using fixed [of x] by (rule ff(3))
  have live_eq: "switch_blocks s' x = None \<longleftrightarrow> switch_blocks s x = None"
    for x using fixed [of x] by (rule ff(7))
  have "chain (switch_blocks s') sb_outer (switch_block s) as =
        chain (switch_blocks s) sb_outer (switch_block s) as"
    by (rule chain_cong) (rule outer_eq)
  with wf top have wf': "chain (switch_blocks s') sb_outer (switch_block s') as" by simp
  have "depths_ok (switch_blocks s') as = depths_ok (switch_blocks s) as"
    by (rule depths_ok_same_on) (rule count_eq, rule depth_eq)
  with depths have depths': "depths_ok (switch_blocks s') as" by simp
  have bound': "x < next_addr s'" if "switch_blocks s' x \<noteq> None" for x
    using that live_eq [of x] bound [of x] nxt by simp
  show ?thesis
    using wf' dist depths' bound' by (auto simp: switch_inv_def)
qed

lemma switch_inv_other:
  assumes inv: "switch_inv s as"
    and same: "switch_blocks s' = switch_blocks s" "switch_block s' = switch_block s"
      "next_addr s \<le> next_addr s'"
  shows "switch_inv s' as"
  using inv same by (fastforce simp: switch_inv_def)

lemma step_switch_inv:
  assumes "step s s'" and "switch_inv s as"
  shows "\<exists>as'. switch_inv s' as'"
  using step_switch_cases [OF assms(1)] assms(2)
  by (blast intro: switch_inv_ctor switch_inv_dtor switch_inv_frame switch_inv_other)

lemma reachable_switch_inv: "reachable s \<Longrightarrow> \<exists>as. switch_inv s as"
proof (induction rule: reachable.induct)
  case start
  have "switch_inv initial_state []"
    by (simp add: switch_inv_def initial_state_def)
  then show ?case ..
next
  case (after s s')
  then show ?case by (blast dest: step_switch_inv)
qed

lemma Destination_resolved:
  assumes loop: "Destination_loop (switch_blocks s) (Some this) t = Some (Inr (Some a))"
    and blk: "switch_blocks s a = Some blk"
  shows "Destination s this t fp dp = Some (DestinationDirect s a (t - sb_depth blk) fp dp)"
  using loop blk
  by (simp add: Destination_def DestinationDirect_def deref_def
           split: sum.splits prod.splits)

lemma Destination_loop_here:
  assumes "h a = Some blk" and "\<not> t <s sb_depth blk"
  shows "Destination_loop h (Some a) t = Some (Inr (Some a))"
  using assms by (subst Destination_loop.simps) (simp add: deref_def)

lemma Destination_loop_outward:
  assumes "h a = Some blk" and "t <s sb_depth blk"
  shows "Destination_loop h (Some a) t = Destination_loop h (sb_outer blk) t"
  using assms by (subst Destination_loop.simps) (simp add: deref_def)

lemma DestinationDirect_result:
  assumes blk: "switch_blocks s a = Some blk" and outs: "fp \<longrightarrow> dp"
  shows "\<exists>j s'. DestinationDirect s a n fp dp =
                  Inr (j, if fp then Some (sb_outer_finally blk) else None,
                          if fp then Some (sb_context_depth blk) else None, s') \<and>
                map_option (\<lambda>b. sb_destinations b n) (switch_blocks s' a) = Some (Some j) \<and>
                (case sb_destinations blk n of
                   None \<Rightarrow> j = length (join_entries s)
                 | Some c \<Rightarrow> j = c \<and> s' = s)"
  using blk outs
  by (cases "sb_destinations blk n")
     (auto simp: DestinationDirect_def SwitchBlock_EnsureDestination_def deref_def
        write_outs_def BuildJoinEntry_def)

lemma DestinationDirect_returns:
  assumes blk: "switch_blocks s a = Some blk" and outs: "fp \<longrightarrow> dp"
  shows "\<exists>j f d s'. DestinationDirect s a n fp dp = Inr (j, f, d, s') \<and>
                     case_destination s' a n = Some j"
proof -
  from DestinationDirect_result [OF blk outs, of n] obtain j f d s' where
    res: "DestinationDirect s a n fp dp = Inr (j, f, d, s')"
    and cached: "map_option (\<lambda>b. sb_destinations b n) (switch_blocks s' a) = Some (Some j)"
    by blast
  from cached have "case_destination s' a n = Some j"
    by (cases "switch_blocks s' a") (simp_all add: case_destination_def)
  with res show ?thesis by blast
qed

section \<open>The try-catch chain and the constructors\<close>

text \<open>
  Every reachable state has a well-formed try-catch chain, so \<open>CurrentTryIndex\<close> and
  the three constructors that read through the builder's chain pointers do not fault.
\<close>

lemma step_try_catch_cases:
  assumes "step s s'"
  shows "(\<exists>t a. TryCatchBlock_ctor s t = (a, s')) \<or>
         (\<exists>a. try_catch_block s = Some a \<and> TryCatchBlock_dtor s a = Inr s') \<or>
         (try_catch_blocks s' = try_catch_blocks s \<and> try_catch_block s' = try_catch_block s \<and>
          next_addr s \<le> next_addr s')"
  using assms
proof (induction rule: step.induct)
  case (enter_try_catch s try_handler_index a s')
  then show ?case by blast
next
  case (leave_try_catch s a s')
  then show ?case by blast
next
  case (resolve_break s this label_index j f d s')
  from BreakDestination_frame [OF this] show ?case
    by (auto simp: breakable_frame_def dest: arg_cong [where f = try_catch_blocks]
          arg_cong [where f = try_catch_block] arg_cong [where f = next_addr])
next
  case (resolve_case s this target_index fp dp j f d s')
  from Destination_frame [OF this] show ?case
    by (auto simp: switch_frame_def dest: arg_cong [where f = try_catch_blocks]
          arg_cong [where f = try_catch_block] arg_cong [where f = next_addr])
next
  case (resolve_case_direct s this case_no fp dp j f d s')
  from DestinationDirect_frame [OF this] show ?case
    by (auto simp: switch_frame_def dest: arg_cong [where f = try_catch_blocks]
          arg_cong [where f = try_catch_block] arg_cong [where f = next_addr])
qed (auto simp: ctor_dtor_defs Let_def split: sum.splits if_splits prod.splits)

lemma try_catch_inv_ctor:
  assumes inv: "try_catch_inv s as" and ctor: "TryCatchBlock_ctor s t = (a, s')"
  shows "try_catch_inv s' (a # as)"
proof -
  from inv have wf: "chain (try_catch_blocks s) tc_outer (try_catch_block s) as"
    and dist: "distinct as"
    and bound: "\<And>x. try_catch_blocks s x \<noteq> None \<Longrightarrow> x < next_addr s"
    by (auto simp: try_catch_inv_def)
  from ctor obtain blk where
    a: "a = next_addr s" and next': "next_addr s' = Suc a" and top': "try_catch_block s' = Some a"
    and heap': "try_catch_blocks s' = (try_catch_blocks s)(a \<mapsto> blk)"
    and outer: "tc_outer blk = try_catch_block s"
    by (auto simp: TryCatchBlock_ctor_def AllocateTryIndex_def Let_def split: if_splits)
  have fresh: "a \<notin> set as"
  proof
    assume "a \<in> set as"
    with wf have "try_catch_blocks s a \<noteq> None" by (rule chain_live)
    then have "a < next_addr s" by (rule bound)
    with a show False by simp
  qed
  have same: "try_catch_blocks s' x = try_catch_blocks s x" if "x \<in> set as" for x
    using that fresh heap' by auto
  have "chain (try_catch_blocks s') tc_outer (try_catch_block s) as =
        chain (try_catch_blocks s) tc_outer (try_catch_block s) as"
    by (rule chain_same_on) (rule same)
  with wf have wf': "chain (try_catch_blocks s') tc_outer (try_catch_block s) as" by simp
  have bound': "x < next_addr s'" if "try_catch_blocks s' x \<noteq> None" for x
  proof (cases "x = a")
    case True
    with next' show ?thesis by simp
  next
    case False
    with that heap' have "try_catch_blocks s x \<noteq> None" by simp
    then have "x < next_addr s" by (rule bound)
    with a next' show ?thesis by simp
  qed
  show ?thesis
    using wf' top' heap' outer dist fresh bound'
    by (auto simp: try_catch_inv_def)
qed

lemma try_catch_inv_dtor:
  assumes inv: "try_catch_inv s as" and top: "try_catch_block s = Some a"
    and dtor: "TryCatchBlock_dtor s a = Inr s'"
  shows "try_catch_inv s' (tl as)"
proof -
  from inv have wf: "chain (try_catch_blocks s) tc_outer (try_catch_block s) as"
    and dist: "distinct as"
    and bound: "\<And>x. try_catch_blocks s x \<noteq> None \<Longrightarrow> x < next_addr s"
    by (auto simp: try_catch_inv_def)
  from wf top obtain ps blk where as: "as = a # ps" and blk: "try_catch_blocks s a = Some blk"
    and rest: "chain (try_catch_blocks s) tc_outer (tc_outer blk) ps"
    by (cases as) (auto split: option.splits)
  from dtor blk have s': "s' = s\<lparr>try_catch_block := tc_outer blk,
                                  try_catch_blocks := (try_catch_blocks s)(a := None)\<rparr>"
    by (simp add: TryCatchBlock_dtor_def deref_def)
  from dist as have fresh: "a \<notin> set ps" and dist': "distinct ps" by simp_all
  have same: "try_catch_blocks s' x = try_catch_blocks s x" if "x \<in> set ps" for x
    using that fresh s' by auto
  have "chain (try_catch_blocks s') tc_outer (tc_outer blk) ps =
        chain (try_catch_blocks s) tc_outer (tc_outer blk) ps"
    by (rule chain_same_on) (rule same)
  with rest have wf': "chain (try_catch_blocks s') tc_outer (tc_outer blk) ps" by simp
  have bound': "x < next_addr s'" if "try_catch_blocks s' x \<noteq> None" for x
  proof -
    from that s' have "try_catch_blocks s x \<noteq> None" by (auto split: if_splits)
    then have "x < next_addr s" by (rule bound)
    with s' show ?thesis by simp
  qed
  show ?thesis
    using wf' dist' bound' as s' by (auto simp: try_catch_inv_def)
qed

lemma try_catch_inv_other:
  assumes inv: "try_catch_inv s as"
    and same: "try_catch_blocks s' = try_catch_blocks s" "try_catch_block s' = try_catch_block s"
      "next_addr s \<le> next_addr s'"
  shows "try_catch_inv s' as"
  using inv same by (fastforce simp: try_catch_inv_def)

lemma step_try_catch_inv:
  assumes "step s s'" and "try_catch_inv s as"
  shows "\<exists>as'. try_catch_inv s' as'"
  using step_try_catch_cases [OF assms(1)] assms(2)
  by (blast intro: try_catch_inv_ctor try_catch_inv_dtor try_catch_inv_other)

lemma reachable_try_catch_inv: "reachable s \<Longrightarrow> \<exists>as. try_catch_inv s as"
proof (induction rule: reachable.induct)
  case start
  have "try_catch_inv initial_state []"
    by (simp add: try_catch_inv_def initial_state_def)
  then show ?case ..
next
  case (after s s')
  then show ?case by (blast dest: step_try_catch_inv)
qed

lemma chain_top: "chain h outer p as \<Longrightarrow> p = None \<or> (\<exists>blk. deref h p = Inr blk)"
  by (cases as) (auto simp: deref_def split: option.splits)

lemma reachable_CurrentTryIndex: "reachable s \<Longrightarrow> \<exists>ti. CurrentTryIndex s = Inr ti"
proof -
  assume "reachable s"
  then obtain as where "try_catch_inv s as" by (blast dest: reachable_try_catch_inv)
  then have "chain (try_catch_blocks s) tc_outer (try_catch_block s) as"
    by (simp add: try_catch_inv_def)
  from chain_top [OF this] show ?thesis
    by (auto simp: CurrentTryIndex_def)
qed

lemma reachable_constructors_succeed:
  assumes "reachable s"
  shows "(\<exists>a s'. SwitchBlock_ctor s case_count = Inr (a, s')) \<and>
         (\<exists>a s'. BreakableBlock_ctor s = Inr (a, s')) \<and>
         (\<exists>a s'. TryFinallyBlock_ctor s offset = Inr (a, s'))"
proof -
  from reachable_CurrentTryIndex [OF assms] obtain ti where ti: "CurrentTryIndex s = Inr ti" ..
  from reachable_switch_inv [OF assms] obtain ss where "switch_inv s ss" ..
  then have "chain (switch_blocks s) sb_outer (switch_block s) ss" by (simp add: switch_inv_def)
  from chain_top [OF this] ti have "\<exists>a s'. SwitchBlock_ctor s case_count = Inr (a, s')"
    by (auto simp: SwitchBlock_ctor_def Let_def)
  moreover
  from reachable_breakable_inv [OF assms] obtain bs where "breakable_inv s bs" ..
  then have "chain (breakable_blocks s) bb_outer (breakable_block s) bs"
    by (simp add: breakable_inv_def)
  from chain_top [OF this] ti have "\<exists>a s'. BreakableBlock_ctor s = Inr (a, s')"
    by (auto simp: BreakableBlock_ctor_def Let_def)
  moreover from ti have "\<exists>a s'. TryFinallyBlock_ctor s offset = Inr (a, s')"
    by (simp add: TryFinallyBlock_ctor_def Let_def)
  ultimately show ?thesis by blast
qed

section \<open>Push and pop of the five chains\<close>

text \<open>
  C7. For each of the five record classes: the constructor makes the new record the top
  of the builder's chain for that class, with the previous top as its outer link; and
  whatever steps follow, as long as the record is alive its destructor succeeds and
  leaves the builder's chain pointer at the value it had before the construction. The
  three constructors that read through the builder's pointers succeed in every state a
  translation can reach (the other two cannot fail).
\<close>

theorem chain_push_pop:
  "(SwitchBlock_ctor s case_count = Inr (a, s1) \<longrightarrow>
      switch_block s1 = Some a \<and>
      map_option sb_outer (switch_blocks s1 a) = Some (switch_block s) \<and>
      (\<forall>s2. step\<^sup>*\<^sup>* s1 s2 \<and> switch_blocks s2 a \<noteq> None \<longrightarrow>
         (\<exists>s3. SwitchBlock_dtor s2 a = Inr s3 \<and> switch_block s3 = switch_block s))) \<and>
   (BreakableBlock_ctor s = Inr (a, s1) \<longrightarrow>
      breakable_block s1 = Some a \<and>
      map_option bb_outer (breakable_blocks s1 a) = Some (breakable_block s) \<and>
      (\<forall>s2. step\<^sup>*\<^sup>* s1 s2 \<and> breakable_blocks s2 a \<noteq> None \<longrightarrow>
         (\<exists>s3. BreakableBlock_dtor s2 a = Inr s3 \<and> breakable_block s3 = breakable_block s))) \<and>
   (TryFinallyBlock_ctor s offset = Inr (a, s1) \<longrightarrow>
      try_finally_block s1 = Some a \<and>
      map_option tf_outer (try_finally_blocks s1 a) = Some (try_finally_block s) \<and>
      (\<forall>s2. step\<^sup>*\<^sup>* s1 s2 \<and> try_finally_blocks s2 a \<noteq> None \<longrightarrow>
         (\<exists>s3. TryFinallyBlock_dtor s2 a = Inr s3 \<and>
               try_finally_block s3 = try_finally_block s))) \<and>
   (TryCatchBlock_ctor s try_handler_index = (a, s1) \<longrightarrow>
      try_catch_block s1 = Some a \<and>
      map_option tc_outer (try_catch_blocks s1 a) = Some (try_catch_block s) \<and>
      (\<forall>s2. step\<^sup>*\<^sup>* s1 s2 \<and> try_catch_blocks s2 a \<noteq> None \<longrightarrow>
         (\<exists>s3. TryCatchBlock_dtor s2 a = Inr s3 \<and> try_catch_block s3 = try_catch_block s))) \<and>
   (CatchBlock_ctor s ev sv catch_try_index = (a, s1) \<longrightarrow>
      catch_block s1 = Some a \<and>
      map_option cb_outer (catch_blocks s1 a) = Some (catch_block s) \<and>
      (\<forall>s2. step\<^sup>*\<^sup>* s1 s2 \<and> catch_blocks s2 a \<noteq> None \<longrightarrow>
         (\<exists>s3. CatchBlock_dtor s2 a = Inr s3 \<and> catch_block s3 = catch_block s))) \<and>
   (reachable s \<longrightarrow>
      (\<exists>a s1. SwitchBlock_ctor s case_count = Inr (a, s1)) \<and>
      (\<exists>a s1. BreakableBlock_ctor s = Inr (a, s1)) \<and>
      (\<exists>a s1. TryFinallyBlock_ctor s offset = Inr (a, s1)))"
proof (intro conjI impI)
  show "\<exists>a s1. SwitchBlock_ctor s case_count = Inr (a, s1)"
    "\<exists>a s1. BreakableBlock_ctor s = Inr (a, s1)"
    "\<exists>a s1. TryFinallyBlock_ctor s offset = Inr (a, s1)"
    if "reachable s"
    using reachable_constructors_succeed [OF that] by blast+
  show "switch_block s1 = Some a"
    "map_option sb_outer (switch_blocks s1 a) = Some (switch_block s)"
    "\<forall>s2. step\<^sup>*\<^sup>* s1 s2 \<and> switch_blocks s2 a \<noteq> None \<longrightarrow>
       (\<exists>s3. SwitchBlock_dtor s2 a = Inr s3 \<and> switch_block s3 = switch_block s)"
    if "SwitchBlock_ctor s case_count = Inr (a, s1)"
    using SwitchBlock_push_pop [OF that] by blast+
  show "breakable_block s1 = Some a"
    "map_option bb_outer (breakable_blocks s1 a) = Some (breakable_block s)"
    "\<forall>s2. step\<^sup>*\<^sup>* s1 s2 \<and> breakable_blocks s2 a \<noteq> None \<longrightarrow>
       (\<exists>s3. BreakableBlock_dtor s2 a = Inr s3 \<and> breakable_block s3 = breakable_block s)"
    if "BreakableBlock_ctor s = Inr (a, s1)"
    using BreakableBlock_push_pop [OF that] by blast+
  show "try_finally_block s1 = Some a"
    "map_option tf_outer (try_finally_blocks s1 a) = Some (try_finally_block s)"
    "\<forall>s2. step\<^sup>*\<^sup>* s1 s2 \<and> try_finally_blocks s2 a \<noteq> None \<longrightarrow>
       (\<exists>s3. TryFinallyBlock_dtor s2 a = Inr s3 \<and> try_finally_block s3 = try_finally_block s)"
    if "TryFinallyBlock_ctor s offset = Inr (a, s1)"
    using TryFinallyBlock_push_pop [OF that] by blast+
  show "try_catch_block s1 = Some a"
    "map_option tc_outer (try_catch_blocks s1 a) = Some (try_catch_block s)"
    "\<forall>s2. step\<^sup>*\<^sup>* s1 s2 \<and> try_catch_blocks s2 a \<noteq> None \<longrightarrow>
       (\<exists>s3. TryCatchBlock_dtor s2 a = Inr s3 \<and> try_catch_block s3 = try_catch_block s)"
    if "TryCatchBlock_ctor s try_handler_index = (a, s1)"
    using TryCatchBlock_push_pop [OF that] by blast+
  show "catch_block s1 = Some a"
    "map_option cb_outer (catch_blocks s1 a) = Some (catch_block s)"
    "\<forall>s2. step\<^sup>*\<^sup>* s1 s2 \<and> catch_blocks s2 a \<noteq> None \<longrightarrow>
       (\<exists>s3. CatchBlock_dtor s2 a = Inr s3 \<and> catch_block s3 = catch_block s)"
    if "CatchBlock_ctor s ev sv catch_try_index = (a, s1)"
    using CatchBlock_push_pop [OF that] by blast+
qed

theorem chain_push_pop_witness:
  "reachable initial_state \<and>
   (\<exists>a s1 s3. SwitchBlock_ctor initial_state 3 = Inr (a, s1) \<and> switch_block s1 = Some a \<and>
       SwitchBlock_dtor s1 a = Inr s3 \<and> switch_block s3 = None) \<and>
   (\<exists>a s1 s3. BreakableBlock_ctor initial_state = Inr (a, s1) \<and> breakable_block s1 = Some a \<and>
       BreakableBlock_dtor s1 a = Inr s3 \<and> breakable_block s3 = None) \<and>
   (\<exists>a s1 s3. TryFinallyBlock_ctor initial_state 7 = Inr (a, s1) \<and> try_finally_block s1 = Some a \<and>
       TryFinallyBlock_dtor s1 a = Inr s3 \<and> try_finally_block s3 = None) \<and>
   (\<exists>a s1 s3. TryCatchBlock_ctor initial_state (- 1) = (a, s1) \<and> try_catch_block s1 = Some a \<and>
       TryCatchBlock_dtor s1 a = Inr s3 \<and> try_catch_block s3 = None) \<and>
   (\<exists>a s1 s3. CatchBlock_ctor initial_state None None 0 = (a, s1) \<and> catch_block s1 = Some a \<and>
       CatchBlock_dtor s1 a = Inr s3 \<and> catch_block s3 = None)"
proof -
  have ti: "CurrentTryIndex initial_state = Inr (- 1)"
    by (simp add: CurrentTryIndex_def kInvalidTryIndex_def initial_state_def)
  have tops: "switch_block initial_state = None" "breakable_block initial_state = None"
    "try_finally_block initial_state = None" "try_catch_block initial_state = None"
    "catch_block initial_state = None"
    by (simp_all add: initial_state_def)
  note total = chain_push_pop [where s = initial_state and case_count = 3 and offset = 7,
      THEN conjunct2, THEN conjunct2, THEN conjunct2, THEN conjunct2, THEN conjunct2,
      rule_format, OF reachable.start]
  from total obtain a1 s1 where c1: "SwitchBlock_ctor initial_state 3 = Inr (a1, s1)"
    by blast
  from total obtain a2 s2 where c2: "BreakableBlock_ctor initial_state = Inr (a2, s2)"
    by blast
  from total obtain a3 s3 where c3: "TryFinallyBlock_ctor initial_state 7 = Inr (a3, s3)"
    by blast
  obtain a4 s4 where c4: "TryCatchBlock_ctor initial_state (- 1) = (a4, s4)"
    by (cases "TryCatchBlock_ctor initial_state (- 1)") simp
  obtain a5 s5 where c5: "CatchBlock_ctor initial_state None None 0 = (a5, s5)"
    by (cases "CatchBlock_ctor initial_state None None 0") simp
  note pp = chain_push_pop [where s = initial_state]
  from pp [where a = a1 and ?s1.0 = s1 and case_count = 3, THEN conjunct1, rule_format, OF c1]
  have w1: "switch_block s1 = Some a1" "switch_blocks s1 a1 \<noteq> None"
    "\<exists>s3. SwitchBlock_dtor s1 a1 = Inr s3 \<and> switch_block s3 = None"
    using tops by auto
  from pp [where a = a2 and ?s1.0 = s2, THEN conjunct2, THEN conjunct1, rule_format, OF c2]
  have w2: "breakable_block s2 = Some a2"
    "\<exists>s3. BreakableBlock_dtor s2 a2 = Inr s3 \<and> breakable_block s3 = None"
    using tops by auto
  from pp [where a = a3 and ?s1.0 = s3 and offset = 7,
           THEN conjunct2, THEN conjunct2, THEN conjunct1, rule_format, OF c3]
  have w3: "try_finally_block s3 = Some a3"
    "\<exists>s. TryFinallyBlock_dtor s3 a3 = Inr s \<and> try_finally_block s = None"
    using tops by auto
  from pp [where a = a4 and ?s1.0 = s4 and try_handler_index = "- 1",
           THEN conjunct2, THEN conjunct2, THEN conjunct2, THEN conjunct1, rule_format, OF c4]
  have w4: "try_catch_block s4 = Some a4"
    "\<exists>s. TryCatchBlock_dtor s4 a4 = Inr s \<and> try_catch_block s = None"
    using tops by auto
  from pp [where a = a5 and ?s1.0 = s5 and ev = None and sv = None and catch_try_index = 0,
           THEN conjunct2, THEN conjunct2, THEN conjunct2, THEN conjunct2, THEN conjunct1,
           rule_format, OF c5]
  have w5: "catch_block s5 = Some a5"
    "\<exists>s. CatchBlock_dtor s5 a5 = Inr s \<and> catch_block s = None"
    using tops by auto
  from reachable.start c1 c2 c3 c4 c5 w1 w2 w3 w4 w5 show ?thesis by blast
qed

section \<open>BreakableBlock: label indexes and break resolution\<close>

text \<open>
  C8. In every state a translation can reach, constructing a \<open>BreakableBlock\<close>
  succeeds; and a \<open>BreakableBlock\<close> that has been constructed carries label index 0 when
  the builder had no breakable block at that moment, and otherwise one plus the label
  index of the builder's innermost breakable block, which is the nearest one enclosing
  it.
\<close>

theorem BreakableBlock_index:
  "(reachable s \<longrightarrow> (\<exists>a s'. BreakableBlock_ctor s = Inr (a, s'))) \<and>
   (BreakableBlock_ctor s = Inr (a, s') \<longrightarrow>
      (\<exists>blk. breakable_blocks s' a = Some blk \<and>
         (breakable_block s = None \<longrightarrow> bb_index blk = 0) \<and>
         (\<forall>p ob. breakable_block s = Some p \<and> breakable_blocks s p = Some ob \<longrightarrow>
                 bb_index blk = bb_index ob + 1)))"
proof (intro conjI impI)
  assume "reachable s"
  from reachable_constructors_succeed [OF this]
  show "\<exists>a s'. BreakableBlock_ctor s = Inr (a, s')" by blast
next
  assume "BreakableBlock_ctor s = Inr (a, s')"
  then show "\<exists>blk. breakable_blocks s' a = Some blk \<and>
         (breakable_block s = None \<longrightarrow> bb_index blk = 0) \<and>
         (\<forall>p ob. breakable_block s = Some p \<and> breakable_blocks s p = Some ob \<longrightarrow>
                 bb_index blk = bb_index ob + 1)"
    by (auto simp: BreakableBlock_ctor_def Let_def deref_def
             split: sum.splits option.splits if_splits)
qed

lemma first_breakable:
  "BreakableBlock_ctor initial_state =
     Inr (0, initial_state\<lparr>breakable_block := Some 0,
               breakable_blocks := [0 \<mapsto> \<lparr>bb_index = 0, bb_outer = None, bb_destination = None,
                                        bb_outer_finally = None, bb_context_depth = 0,
                                        bb_try_index = - 1\<rparr>],
               next_addr := Suc 0\<rparr>)"
  by (simp add: BreakableBlock_ctor_def CurrentTryIndex_def kInvalidTryIndex_def
        initial_state_def Let_def)

theorem BreakableBlock_index_witness:
  "\<exists>s1 s2 b1 b2. reachable initial_state \<and> BreakableBlock_ctor initial_state = Inr (0, s1) \<and>
       BreakableBlock_ctor s1 = Inr (1, s2) \<and>
       breakable_blocks s1 0 = Some b1 \<and> bb_index b1 = 0 \<and>
       breakable_blocks s2 1 = Some b2 \<and> bb_index b2 = 1"
proof -
  let ?b1 = "\<lparr>bb_index = 0, bb_outer = None, bb_destination = None,
              bb_outer_finally = None, bb_context_depth = 0, bb_try_index = - 1\<rparr>"
  let ?s1 = "initial_state\<lparr>breakable_block := Some 0, breakable_blocks := [0 \<mapsto> ?b1],
               next_addr := Suc 0\<rparr>"
  have c1: "BreakableBlock_ctor initial_state = Inr (0, ?s1)" by (rule first_breakable)
  obtain s2 where c2: "BreakableBlock_ctor ?s1 = Inr (1, s2)"
    by (simp add: BreakableBlock_ctor_def CurrentTryIndex_def initial_state_def Let_def deref_def)
  note ix = BreakableBlock_index [THEN conjunct2, rule_format]
  from ix [OF c1] have i1: "bb_index ?b1 = 0"
    by (simp add: initial_state_def)
  from ix [OF c2] obtain b2 where
    b2: "breakable_blocks s2 1 = Some b2" and i2: "bb_index b2 = bb_index ?b1 + 1"
    by (auto simp: initial_state_def)
  from BreakableBlock_index [THEN conjunct1, rule_format, OF reachable.start]
  have "\<exists>a s'. BreakableBlock_ctor initial_state = Inr (a, s')" .
  with reachable.start c1 c2 b2 i2 show ?thesis by (auto simp: initial_state_def)
qed

text \<open>
  C1. In a state a translation can reach, let the builder's breakable chain be \<open>as\<close>,
  let \<open>this\<close> be a live breakable block and let the block at \<open>a\<close> be the construct with
  label index \<open>L\<close>. Then a break resolution for \<open>L\<close> returns a join node \<open>j\<close> together
  with that block's finally pointer and context depth; when the block had no destination
  yet, \<open>j\<close> is a newly allocated node, and when it had one, \<open>j\<close> is that node and the state
  is unchanged; afterwards \<open>j\<close> is the block's \<open>destination_\<close>; any number of resolutions
  for \<open>L\<close> made in a row all return \<open>j\<close>; and so does every resolution for \<open>L\<close> made
  after any further steps of the translation, from any live block, as long as \<open>L\<close> still
  denotes the block at \<open>a\<close>. (\<open>find_label\<close> names the construct a label denotes; by
  \<open>reachable_own_label\<close> every block of a reachable chain is the one its own label index
  denotes, as long as the nesting is not deep enough for the indexes to wrap around.)
\<close>

theorem BreakDestination_same_join:
  assumes reach: "reachable s"
    and wf: "chain (breakable_blocks s) bb_outer (breakable_block s) as"
    and live: "breakable_blocks s this \<noteq> None"
    and target: "find_label (breakable_blocks s) as L = Some a"
  shows "\<exists>blk j s1.
           breakable_blocks s a = Some blk \<and> bb_index blk = L \<and>
           BreakDestination s this L =
             Some (Inr (j, bb_outer_finally blk, bb_context_depth blk, s1)) \<and>
           (case bb_destination blk of
              None \<Rightarrow> j = length (join_entries s) \<and>
                       join_entries s1 = join_entries s @ [bb_try_index blk]
            | Some c \<Rightarrow> j = c \<and> s1 = s) \<and>
           map_option bb_destination (breakable_blocks s1 a) = Some (Some j) \<and>
           (\<forall>n. BreakDestinations s this L (Suc n) = Some (Inr (replicate (Suc n) j, s1))) \<and>
           (\<forall>s2 as2 this2.
              step\<^sup>*\<^sup>* s1 s2 \<and>
              chain (breakable_blocks s2) bb_outer (breakable_block s2) as2 \<and>
              breakable_blocks s2 this2 \<noteq> None \<and>
              find_label (breakable_blocks s2) as2 L = Some a \<longrightarrow>
                BreakDestination s2 this2 L =
                  Some (Inr (j, bb_outer_finally blk, bb_context_depth blk, s2)))"
proof -
  from find_label_live [OF target] obtain blk where
    blk: "breakable_blocks s a = Some blk" and ix: "bb_index blk = L"
    by blast
  from reachable_breakable_inv [OF reach] obtain bs where "breakable_inv s bs" ..
  with blk have bound: "a < next_addr s" by (simp add: breakable_inv_def)
  have later: "BreakDestination s2 this2 L =
                 Some (Inr (j, bb_outer_finally blk, bb_context_depth blk, s2))"
    if s1: "breakable_blocks s1 a = Some blk1" "bb_destination blk1 = Some j"
      "bb_outer_finally blk1 = bb_outer_finally blk" "bb_context_depth blk1 = bb_context_depth blk"
      "next_addr s1 = next_addr s"
      and run: "step\<^sup>*\<^sup>* s1 s2"
      and wf2: "chain (breakable_blocks s2) bb_outer (breakable_block s2) as2"
      and live2: "breakable_blocks s2 this2 \<noteq> None"
      and target2: "find_label (breakable_blocks s2) as2 L = Some a"
    for s1 s2 as2 this2 blk1 j
  proof -
    from find_label_live [OF target2] have alive: "breakable_blocks s2 a \<noteq> None" by blast
    from bound s1(5) have "a < next_addr s1" by simp
    with run have "breakable_blocks s2 a = Some blk1"
      using s1(1,2) alive by (rule steps_keeps_cached)
    from BreakDestination_cached [OF wf2 live2 target2 this s1(2)] s1(3,4)
    show ?thesis by simp
  qed
  show ?thesis
  proof (cases "bb_destination blk")
    case (Some c)
    have one: "BreakDestination s this L =
                 Some (Inr (c, bb_outer_finally blk, bb_context_depth blk, s))"
      using wf live target blk Some by (rule BreakDestination_cached)
    have many: "BreakDestinations s this L n = Some (Inr (replicate n c, s))" for n
      using wf live target blk Some by (rule BreakDestinations_cached)
    have after: "\<forall>s2 as2 this2.
              step\<^sup>*\<^sup>* s s2 \<and>
              chain (breakable_blocks s2) bb_outer (breakable_block s2) as2 \<and>
              breakable_blocks s2 this2 \<noteq> None \<and>
              find_label (breakable_blocks s2) as2 L = Some a \<longrightarrow>
                BreakDestination s2 this2 L =
                  Some (Inr (c, bb_outer_finally blk, bb_context_depth blk, s2))"
      using later [OF blk Some refl refl refl] by blast
    from blk ix one Some many [of "Suc n" for n] after show ?thesis
      by (intro exI [of _ blk] exI [of _ c] exI [of _ s]) simp
  next
    case None
    let ?j = "length (join_entries s)"
    let ?blk1 = "blk\<lparr>bb_destination := Some ?j\<rparr>"
    let ?s1 = "s\<lparr>join_entries := join_entries s @ [bb_try_index blk],
                 breakable_blocks := (breakable_blocks s)(a \<mapsto> ?blk1)\<rparr>"
    have one: "BreakDestination s this L =
                 Some (Inr (?j, bb_outer_finally blk, bb_context_depth blk, ?s1))"
      using wf live target blk None by (rule BreakDestination_fresh)
    note keep = BreakDestination_keeps_chain [OF blk, where j = "?j"]
    have wf1: "chain (breakable_blocks ?s1) bb_outer (breakable_block ?s1) as"
      using keep(1) [where as = as] wf by simp
    have this1: "breakable_blocks ?s1 this \<noteq> None"
      using keep(3) [where this = this] live by simp
    have target1: "find_label (breakable_blocks ?s1) as L = Some a"
      using keep(2) [where as = as and L = L] target by simp
    have blk1: "breakable_blocks ?s1 a = Some ?blk1" by simp
    have cached1: "bb_destination ?blk1 = Some ?j" by simp
    have many: "BreakDestinations ?s1 this L n = Some (Inr (replicate n ?j, ?s1))" for n
      using wf1 this1 target1 blk1 cached1 by (rule BreakDestinations_cached)
    have all: "BreakDestinations s this L (Suc n) = Some (Inr (replicate (Suc n) ?j, ?s1))" for n
      using one many [of n] by simp
    have l1: "BreakDestination s2 this2 L =
                Some (Inr (?j, bb_outer_finally blk, bb_context_depth blk, s2))"
      if "step\<^sup>*\<^sup>* ?s1 s2"
        and "chain (breakable_blocks s2) bb_outer (breakable_block s2) as2"
        and "breakable_blocks s2 this2 \<noteq> None"
        and "find_label (breakable_blocks s2) as2 L = Some a"
      for s2 as2 this2
      using later [OF blk1 cached1 _ _ _ that] by simp
    have after: "\<forall>s2 as2 this2.
              step\<^sup>*\<^sup>* ?s1 s2 \<and>
              chain (breakable_blocks s2) bb_outer (breakable_block s2) as2 \<and>
              breakable_blocks s2 this2 \<noteq> None \<and>
              find_label (breakable_blocks s2) as2 L = Some a \<longrightarrow>
                BreakDestination s2 this2 L =
                  Some (Inr (?j, bb_outer_finally blk, bb_context_depth blk, s2))"
      using l1 by blast
    from blk ix one None all after show ?thesis
      by (intro exI [of _ blk] exI [of _ ?j] exI [of _ ?s1]) simp
  qed
qed

theorem BreakDestination_same_join_witness:
  "\<exists>s1 s2 s3. BreakableBlock_ctor initial_state = Inr (0, s1) \<and> reachable s1 \<and>
     chain (breakable_blocks s1) bb_outer (breakable_block s1) [0] \<and>
     breakable_blocks s1 0 \<noteq> None \<and>
     find_label (breakable_blocks s1) [0] 0 = Some 0 \<and>
     BreakDestination s1 0 0 = Some (Inr (0, None, 0, s2)) \<and>
     BreakDestinations s1 0 0 3 = Some (Inr ([0, 0, 0], s2)) \<and>
     BreakableBlock_destination s2 0 = Inr (Some 0) \<and>
     BreakableBlock_ctor s2 = Inr (1, s3) \<and>
     find_label (breakable_blocks s3) [1, 0] 0 = Some 0 \<and>
     BreakDestination s3 1 0 = Some (Inr (0, None, 0, s3))"
proof -
  let ?b1 = "\<lparr>bb_index = 0, bb_outer = None, bb_destination = None,
              bb_outer_finally = None, bb_context_depth = 0, bb_try_index = - 1\<rparr>"
  let ?s1 = "initial_state\<lparr>breakable_block := Some 0, breakable_blocks := [0 \<mapsto> ?b1],
               next_addr := Suc 0\<rparr>"
  have ctor: "BreakableBlock_ctor initial_state = Inr (0, ?s1)" by (rule first_breakable)
  have reach: "reachable ?s1"
    using reachable.start enter_breakable [OF ctor] by (rule reachable.after)
  have wf: "chain (breakable_blocks ?s1) bb_outer (breakable_block ?s1) [0]" by simp
  have live: "breakable_blocks ?s1 0 \<noteq> None" by simp
  have target: "find_label (breakable_blocks ?s1) [0] 0 = Some 0" by simp
  from BreakDestination_same_join [OF reach wf live target] obtain blk j s2 where
    blk: "breakable_blocks ?s1 0 = Some blk"
    and one: "BreakDestination ?s1 0 0 =
                Some (Inr (j, bb_outer_finally blk, bb_context_depth blk, s2))"
    and lazy: "case bb_destination blk of
                 None \<Rightarrow> j = length (join_entries ?s1) \<and>
                          join_entries s2 = join_entries ?s1 @ [bb_try_index blk]
               | Some c \<Rightarrow> j = c \<and> s2 = ?s1"
    and cached: "map_option bb_destination (breakable_blocks s2 0) = Some (Some j)"
    and many: "\<And>n. BreakDestinations ?s1 0 0 (Suc n) = Some (Inr (replicate (Suc n) j, s2))"
    and later: "\<And>s3 as3 this3. step\<^sup>*\<^sup>* s2 s3 \<Longrightarrow>
                  chain (breakable_blocks s3) bb_outer (breakable_block s3) as3 \<Longrightarrow>
                  breakable_blocks s3 this3 \<noteq> None \<Longrightarrow>
                  find_label (breakable_blocks s3) as3 0 = Some 0 \<Longrightarrow>
                  BreakDestination s3 this3 0 =
                    Some (Inr (j, bb_outer_finally blk, bb_context_depth blk, s3))"
    by blast
  from blk have b: "blk = ?b1" by simp
  from lazy b have j: "j = 0" by (simp add: initial_state_def)
  have three: "BreakDestinations ?s1 0 0 3 = Some (Inr ([0, 0, 0], s2))"
    using many [of 2] j by (simp add: numeral_3_eq_3)
  from cached j have dest: "BreakableBlock_destination s2 0 = Inr (Some 0)"
    by (auto simp: BreakableBlock_destination_def deref_def)
  have "BreakDestination ?s1 0 0 =
          Some (Inr (length (join_entries ?s1), bb_outer_finally ?b1, bb_context_depth ?b1,
                     ?s1\<lparr>join_entries := join_entries ?s1 @ [bb_try_index ?b1],
                        breakable_blocks := (breakable_blocks ?s1)
                          (0 \<mapsto> ?b1\<lparr>bb_destination := Some (length (join_entries ?s1))\<rparr>)\<rparr>))"
    using wf live target by (rule BreakDestination_fresh) simp_all
  with one have s2: "s2 = ?s1\<lparr>join_entries := join_entries ?s1 @ [bb_try_index ?b1],
                        breakable_blocks := (breakable_blocks ?s1)
                          (0 \<mapsto> ?b1\<lparr>bb_destination := Some (length (join_entries ?s1))\<rparr>)\<rparr>"
    using j b by (simp add: initial_state_def)
  obtain s3 where ctor3: "BreakableBlock_ctor s2 = Inr (1, s3)"
    and top3: "breakable_block s3 = Some 1"
    and new3: "map_option bb_index (breakable_blocks s3 1) = Some 1"
      "map_option bb_outer (breakable_blocks s3 1) = Some (Some 0)"
    and old3: "map_option bb_index (breakable_blocks s3 0) = Some 0"
      "map_option bb_outer (breakable_blocks s3 0) = Some None"
    unfolding s2
    by (simp add: BreakableBlock_ctor_def CurrentTryIndex_def initial_state_def Let_def deref_def)
  have run: "step\<^sup>*\<^sup>* s2 s3"
    using enter_breakable [OF ctor3] by (rule r_into_rtranclp)
  have wf3: "chain (breakable_blocks s3) bb_outer (breakable_block s3) [1, 0]"
    using top3 new3 old3 by (auto split: option.splits)
  have live3: "breakable_blocks s3 1 \<noteq> None" using new3 by auto
  have target3: "find_label (breakable_blocks s3) [1, 0] 0 = Some 0"
    using new3 old3 by (auto split: option.splits)
  from later [OF run wf3 live3 target3] b j
  have again: "BreakDestination s3 1 0 = Some (Inr (0, None, 0, s3))" by simp
  from one b j have one': "BreakDestination ?s1 0 0 = Some (Inr (0, None, 0, s2))" by simp
  show ?thesis
    apply (rule exI [where x = ?s1])
    apply (rule exI [where x = s2])
    apply (rule exI [where x = s3])
    using ctor reach wf live target one' three dest ctor3 target3 again
    apply (intro conjI)
    apply assumption+
    done
qed

text \<open>
  C9. A break resolution for a label index that no block of the chain carries is
  specified to fail with an assertion failure. The source has \<open>ASSERT(block != NULL)\<close>
  after the walk, but the walk's condition reads \<open>block->index_\<close>, so on a missing label
  it has already run off the end of the chain and read through \<open>NULL\<close> when the
  assertion would be reached (\<open>BreakDestination_never_asserts\<close>: the assertion cannot
  fail in any state). With one breakable block (label index 0) and the label index 5 the
  result is the null dereference, not the assertion failure.
\<close>

theorem BreakDestination_missing_label:
  "\<exists>a s1. BreakableBlock_ctor initial_state = Inr (a, s1) \<and> reachable s1 \<and>
          find_label (breakable_blocks s1) [a] 5 = None \<and>
          BreakDestination s1 a 5 = Some (Inl NullDereference) \<and>
          BreakDestination s1 a 5 \<noteq> Some (Inl AssertionFailure)"
proof -
  obtain a s1 where ctor: "BreakableBlock_ctor initial_state = Inr (a, s1)"
    by (simp add: BreakableBlock_ctor_def CurrentTryIndex_def initial_state_def Let_def)
  from BreakableBlock_ctor_new [OF ctor] obtain blk where
    top: "breakable_block s1 = Some a" and blk: "breakable_blocks s1 a = Some blk"
    and outer: "bb_outer blk = breakable_block initial_state"
    by blast
  from ctor blk have ix: "bb_index blk = 0"
    by (auto simp: BreakableBlock_ctor_def CurrentTryIndex_def initial_state_def Let_def)
  have reach: "reachable s1"
    using reachable.start enter_breakable [OF ctor] by (rule reachable.after)
  have wf: "chain (breakable_blocks s1) bb_outer (breakable_block s1) [a]"
    using top blk outer by (simp add: initial_state_def)
  have live: "breakable_blocks s1 a \<noteq> None" using blk by simp
  have missing: "find_label (breakable_blocks s1) [a] 5 = None"
    using blk ix by simp
  have "BreakDestination s1 a 5 = Some (Inl NullDereference)"
    using wf live missing by (rule BreakDestination_no_label)
  with ctor reach missing show ?thesis by auto
qed

section \<open>SwitchBlock: depth offsets and case resolution\<close>

text \<open>
  C10. On any live switch block, for a relative case number \<open>n\<close> with
  \<open>0 \<le> n < case_count\<close> and the absolute index \<open>t\<close> that is the number
  \<open>depth + n\<close>, \<open>Destination\<close> with \<open>t\<close> and \<open>DestinationDirect\<close> with \<open>n\<close> give the
  same result for the same out-pointers: the same join node, the same values written to
  \<open>outer_finally\<close> and \<open>context_depth\<close>, the same state afterwards, and the same fault
  where the out-pointers make both fault.
\<close>

theorem DestinationDirect_refines_Destination:
  assumes blk: "switch_blocks s this = Some blk"
    and lo: "0 \<le> sint n" and hi: "sint n < sint (sb_case_count blk)"
    and abs: "sint t = sint (sb_depth blk) + sint n"
  shows "Destination s this t fp dp = Some (DestinationDirect s this n fp dp) \<and>
         ((fp \<longrightarrow> dp) \<longrightarrow>
            (\<exists>j f d s'. DestinationDirect s this n fp dp = Inr (j, f, d, s') \<and>
                        case_destination s' this n = Some j))"
proof -
  from lo abs have "\<not> t <s sb_depth blk" by (simp add: word_sless_alt)
  with blk have "Destination_loop (switch_blocks s) (Some this) t = Some (Inr (Some this))"
    by (rule Destination_loop_here)
  then have "Destination s this t fp dp =
             Some (DestinationDirect s this (t - sb_depth blk) fp dp)"
    using blk by (rule Destination_resolved)
  moreover have "t - sb_depth blk = n"
  proof -
    from abs have "word_of_int (sint t) = (word_of_int (sint (sb_depth blk) + sint n) :: intptr_t)"
      by simp
    then have "t = sb_depth blk + n" by simp
    then show ?thesis by simp
  qed
  ultimately have "Destination s this t fp dp = Some (DestinationDirect s this n fp dp)"
    by simp
  with DestinationDirect_returns [OF blk, of fp dp n] show ?thesis by blast
qed

lemma first_switch:
  "SwitchBlock_ctor initial_state c =
     Inr (0, initial_state\<lparr>switch_block := Some 0,
               switch_blocks := [0 \<mapsto> \<lparr>sb_outer = None, sb_destinations = Map.empty,
                                     sb_outer_finally = None, sb_case_count = c, sb_depth = 0,
                                     sb_context_depth = 0, sb_try_index = - 1\<rparr>],
               next_addr := Suc 0\<rparr>)"
  by (simp add: SwitchBlock_ctor_def CurrentTryIndex_def kInvalidTryIndex_def
        initial_state_def Let_def)

theorem DestinationDirect_refines_Destination_witness:
  "\<exists>s blk. SwitchBlock_ctor initial_state 3 = Inr (0, s) \<and> switch_blocks s 0 = Some blk \<and>
     (0::int) \<le> sint (2 :: intptr_t) \<and> sint (2 :: intptr_t) < sint (sb_case_count blk) \<and>
     sint (2 :: intptr_t) = sint (sb_depth blk) + sint (2 :: intptr_t) \<and>
     Destination s 0 2 True True = Some (DestinationDirect s 0 2 True True) \<and>
     (\<exists>s'. DestinationDirect s 0 2 True True = Inr (0, Some None, Some 0, s'))"
proof -
  let ?b = "\<lparr>sb_outer = None, sb_destinations = Map.empty, sb_outer_finally = None,
             sb_case_count = 3, sb_depth = 0, sb_context_depth = 0, sb_try_index = - 1\<rparr>"
  let ?s = "initial_state\<lparr>switch_block := Some 0, switch_blocks := [0 \<mapsto> ?b],
              next_addr := Suc 0\<rparr>"
  have ctor: "SwitchBlock_ctor initial_state 3 = Inr (0, ?s)" by (rule first_switch)
  have blk: "switch_blocks ?s 0 = Some ?b" by simp
  have lo: "0 \<le> sint (2 :: intptr_t)" by simp
  have hi: "sint (2 :: intptr_t) < sint (sb_case_count ?b)" by simp
  have abs: "sint (2 :: intptr_t) = sint (sb_depth ?b) + sint (2 :: intptr_t)" by simp
  have eq: "Destination ?s 0 2 True True = Some (DestinationDirect ?s 0 2 True True)"
    using DestinationDirect_refines_Destination [OF blk lo hi abs, of True True]
    by (rule conjunct1)
  have direct: "\<exists>s'. DestinationDirect ?s 0 2 True True = Inr (0, Some None, Some 0, s')"
    by (simp add: DestinationDirect_def SwitchBlock_EnsureDestination_def deref_def
          write_outs_def BuildJoinEntry_def initial_state_def)
  show ?thesis
    apply (rule exI [where x = ?s])
    apply (rule exI [where x = ?b])
    using ctor blk lo hi abs eq direct
    apply (intro conjI)
    apply assumption+
    done
qed

text \<open>
  C2. In every state a translation can reach, each switch block of the builder's chain
  has as depth offset the sum of the case counts of the switch blocks enclosing it. When
  the chain is an inner block inside an outer one with case counts \<open>c1\<close> and \<open>c0\<close>, the
  outer depth is 0 and the inner depth is \<open>c0\<close>, and \<open>Destination\<close> called on the
  inner block with absolute index \<open>t\<close> resolves like the relative resolution of case
  \<open>t - c0\<close> in the inner block when \<open>c0 \<le> t < c0 + c1\<close>, and like the relative
  resolution of case \<open>t\<close> in the outer block when \<open>0 \<le> t < c0\<close>.
\<close>

theorem nested_switch_resolution:
  assumes reach: "reachable s"
    and wf: "chain (switch_blocks s) sb_outer (switch_block s) as"
  shows "depths_ok (switch_blocks s) as \<and>
         (\<forall>inner outer b1 b0 t.
            as = [inner, outer] \<and> switch_blocks s inner = Some b1 \<and>
            switch_blocks s outer = Some b0 \<longrightarrow>
              sb_depth b0 = 0 \<and> sb_depth b1 = sb_case_count b0 \<and>
              (sint (sb_case_count b0) \<le> sint t \<and>
               sint t < sint (sb_case_count b0) + sint (sb_case_count b1) \<longrightarrow>
                 Destination s inner t fp dp =
                   Some (DestinationDirect s inner (t - sb_case_count b0) fp dp) \<and>
                 ((fp \<longrightarrow> dp) \<longrightarrow>
                    (\<exists>j f d s'. Destination s inner t fp dp = Some (Inr (j, f, d, s')) \<and>
                       case_destination s' inner (t - sb_case_count b0) = Some j))) \<and>
              (0 \<le> sint t \<and> sint t < sint (sb_case_count b0) \<longrightarrow>
                 Destination s inner t fp dp = Some (DestinationDirect s outer t fp dp) \<and>
                 ((fp \<longrightarrow> dp) \<longrightarrow>
                    (\<exists>j f d s'. Destination s inner t fp dp = Some (Inr (j, f, d, s')) \<and>
                       case_destination s' outer t = Some j))))"
proof -
  from reachable_switch_inv [OF reach] obtain bs where inv: "switch_inv s bs" ..
  then have "chain (switch_blocks s) sb_outer (switch_block s) bs"
    by (simp add: switch_inv_def)
  with wf have "as = bs" by (rule chain_unique)
  with inv have depths: "depths_ok (switch_blocks s) as" by (simp add: switch_inv_def)
  have two: "sb_depth b0 = 0 \<and> sb_depth b1 = sb_case_count b0 \<and>
        (sint (sb_case_count b0) \<le> sint t \<and>
         sint t < sint (sb_case_count b0) + sint (sb_case_count b1) \<longrightarrow>
           Destination s inner t fp dp =
             Some (DestinationDirect s inner (t - sb_case_count b0) fp dp) \<and>
           ((fp \<longrightarrow> dp) \<longrightarrow>
              (\<exists>j f d s'. Destination s inner t fp dp = Some (Inr (j, f, d, s')) \<and>
                 case_destination s' inner (t - sb_case_count b0) = Some j))) \<and>
        (0 \<le> sint t \<and> sint t < sint (sb_case_count b0) \<longrightarrow>
           Destination s inner t fp dp = Some (DestinationDirect s outer t fp dp) \<and>
           ((fp \<longrightarrow> dp) \<longrightarrow>
              (\<exists>j f d s'. Destination s inner t fp dp = Some (Inr (j, f, d, s')) \<and>
                 case_destination s' outer t = Some j)))"
    if as: "as = [inner, outer]" and b1: "switch_blocks s inner = Some b1"
      and b0: "switch_blocks s outer = Some b0" for inner outer b1 b0 t
  proof -
    from depths as b1 b0 have d0: "sb_depth b0 = 0" and d1: "sb_depth b1 = sb_case_count b0"
      by simp_all
    from wf as b1 have link: "sb_outer b1 = Some outer" by simp
    have inner_case: "Destination s inner t fp dp =
             Some (DestinationDirect s inner (t - sb_case_count b0) fp dp)"
      if "sint (sb_case_count b0) \<le> sint t"
    proof -
      from that d1 have "\<not> t <s sb_depth b1" by (simp add: word_sless_alt)
      with b1 have "Destination_loop (switch_blocks s) (Some inner) t = Some (Inr (Some inner))"
        by (rule Destination_loop_here)
      from Destination_resolved [OF this b1] d1 show ?thesis by simp
    qed
    have outer_case: "Destination s inner t fp dp = Some (DestinationDirect s outer t fp dp)"
      if "0 \<le> sint t" and "sint t < sint (sb_case_count b0)"
    proof -
      from that d1 have "t <s sb_depth b1" by (simp add: word_sless_alt)
      with b1 have "Destination_loop (switch_blocks s) (Some inner) t =
                    Destination_loop (switch_blocks s) (sb_outer b1) t"
        by (rule Destination_loop_outward)
      moreover from that d0 have "\<not> t <s sb_depth b0" by (simp add: word_sless_alt)
      with b0 have "Destination_loop (switch_blocks s) (Some outer) t = Some (Inr (Some outer))"
        by (rule Destination_loop_here)
      ultimately have "Destination_loop (switch_blocks s) (Some inner) t = Some (Inr (Some outer))"
        using link by simp
      from Destination_resolved [OF this b0] d0 show ?thesis by simp
    qed
    note r1 = DestinationDirect_returns [OF b1, of fp dp "t - sb_case_count b0"]
    note r0 = DestinationDirect_returns [OF b0, of fp dp t]
    have inner_join: "\<exists>j f d s'. Destination s inner t fp dp = Some (Inr (j, f, d, s')) \<and>
                 case_destination s' inner (t - sb_case_count b0) = Some j"
      if "sint (sb_case_count b0) \<le> sint t" and "fp \<longrightarrow> dp"
      using inner_case [OF that(1)] r1 [OF that(2)] by auto
    have outer_join: "\<exists>j f d s'. Destination s inner t fp dp = Some (Inr (j, f, d, s')) \<and>
                 case_destination s' outer t = Some j"
      if "0 \<le> sint t" and "sint t < sint (sb_case_count b0)" and "fp \<longrightarrow> dp"
      using outer_case [OF that(1,2)] r0 [OF that(3)] by auto
    from d0 d1 inner_case outer_case inner_join outer_join show ?thesis by blast
  qed
  from depths two show ?thesis by blast
qed

theorem nested_switch_resolution_witness:
  "\<exists>s. reachable s \<and> chain (switch_blocks s) sb_outer (switch_block s) [1, 0] \<and>
     depths_ok (switch_blocks s) [1, 0] \<and>
     map_option sb_case_count (switch_blocks s 0) = Some 2 \<and>
     map_option sb_case_count (switch_blocks s 1) = Some 3 \<and>
     map_option sb_depth (switch_blocks s 0) = Some 0 \<and>
     map_option sb_depth (switch_blocks s 1) = Some 2 \<and>
     Destination s 1 3 True True = Some (DestinationDirect s 1 1 True True) \<and>
     Destination s 1 1 True True = Some (DestinationDirect s 0 1 True True)"
proof -
  let ?b0 = "\<lparr>sb_outer = None, sb_destinations = Map.empty, sb_outer_finally = None,
              sb_case_count = 2, sb_depth = 0, sb_context_depth = 0, sb_try_index = - 1\<rparr>"
  let ?s1 = "initial_state\<lparr>switch_block := Some 0, switch_blocks := [0 \<mapsto> ?b0],
               next_addr := Suc 0\<rparr>"
  let ?b1 = "\<lparr>sb_outer = Some 0, sb_destinations = Map.empty, sb_outer_finally = None,
              sb_case_count = 3, sb_depth = 2, sb_context_depth = 0, sb_try_index = - 1\<rparr>"
  have c1: "SwitchBlock_ctor initial_state 2 = Inr (0, ?s1)" by (rule first_switch)
  obtain s2 where c2: "SwitchBlock_ctor ?s1 3 = Inr (1, s2)"
    and top: "switch_block s2 = Some 1"
    and b1: "switch_blocks s2 1 = Some ?b1" and b0: "switch_blocks s2 0 = Some ?b0"
    by (simp add: SwitchBlock_ctor_def CurrentTryIndex_def kInvalidTryIndex_def
          initial_state_def Let_def deref_def)
  have "reachable ?s1"
    using reachable.start enter_switch [OF c1] by (rule reachable.after)
  then have reach: "reachable s2"
    using enter_switch [OF c2] by (rule reachable.after)
  have wf: "chain (switch_blocks s2) sb_outer (switch_block s2) [1, 0]"
    using top b1 b0 by simp
  note main = nested_switch_resolution [OF reach wf, where fp = True and dp = True]
  from main have depths: "depths_ok (switch_blocks s2) [1, 0]" by (rule conjunct1)
  from main have two: "(sint (sb_case_count ?b0) \<le> sint t \<and>
        sint t < sint (sb_case_count ?b0) + sint (sb_case_count ?b1) \<longrightarrow>
          Destination s2 1 t True True =
            Some (DestinationDirect s2 1 (t - sb_case_count ?b0) True True)) \<and>
       (0 \<le> sint t \<and> sint t < sint (sb_case_count ?b0) \<longrightarrow>
          Destination s2 1 t True True = Some (DestinationDirect s2 0 t True True))" for t
    using b1 b0 by blast
  from two [of 3] have r1: "Destination s2 1 3 True True = Some (DestinationDirect s2 1 1 True True)"
    by simp
  from two [of 1] have r2: "Destination s2 1 1 True True = Some (DestinationDirect s2 0 1 True True)"
    by simp
  from reach wf depths b0 b1 r1 r2 show ?thesis
    by (intro exI [of _ s2] conjI) simp_all
qed

end
